theory Spec2Isabelle
  imports Main "HOL-Library.Sublist"
begin

section \<open>Data model (types.ts)\<close>

text \<open>
  JavaScript strings are modelled as \<open>string\<close> (a list of code units); the code only
  inspects the separators \<open>/\<close>, \<open>.\<close> and \<open>*\<close> and the case of letters. A \<open>number\<close> that
  holds a size or a count is an \<open>int\<close>; an optional field is an \<open>option\<close>.
\<close>

datatype item_type = Blob | Tree

record TreeItem =
  item_path :: string
  item_mode :: string
  item_type :: item_type
  item_sha :: string
  item_size :: "int option"

record TreeResponse =
  tree_sha :: string
  tree_items :: "TreeItem list"
  tree_truncated :: bool

datatype entry_type = File | Directory

record FileEntry =
  entry_path :: string
  entry_type :: entry_type
  entry_sha :: string
  entry_size :: "int option"
  extension :: "string option"
  content :: "string option"

datatype EntryType = TypeFile | TypeDir | TypeAll

text \<open>
  Exceptions are values: the SyntaxError of the \<open>RegExp\<close> constructor, the rejection of
  \<open>fetch\<close>, and the errors the client throws (the status and status text stand for the
  message).
\<close>

datatype error =
    RegExpSyntaxError string
  | NetworkError
  | RepoNotFound string
  | RateLimitExceeded
  | ApiError int string
  | CommitFailed int string
  | TreeFailed int string

section \<open>The runtime: strings, arrays and Node's path module\<close>

text \<open>
  \<open>slice(start, end)\<close> of arrays and strings, for integer arguments: a negative index
  counts from the end, and both are clamped to the length.
\<close>

definition js_slice :: "'a list \<Rightarrow> int \<Rightarrow> int \<Rightarrow> 'a list" where
  "js_slice xs s e =
     (let n = int (length xs);
          from = (if s < 0 then max (n + s) 0 else min s n);
          to = (if e < 0 then max (n + e) 0 else min e n)
      in take (nat (to - from)) (drop (nat from) xs))"

text \<open>
  \<open>String.prototype.toLowerCase\<close> belongs to the runtime, which lower-cases by the Unicode
  case mappings: it is the parameter \<open>lower\<close> of every function that calls it.
\<close>

text \<open>
  \<open>path.extname\<close> is not code of the repository: filter.ts imports it from Node. The model
  follows the POSIX implementation in Node's \<open>lib/path.js\<close>, variable by variable: one pass
  from the last character to the first, which stops at the slash before the final
  segment. The counter of the recursion is the source's \<open>i + 1\<close>; \<open>- 1\<close> is the source's
  "not seen". The examples of Node's documentation are checked below.
\<close>

record ext_state =
  startDot :: int
  startPart :: int
  ext_end :: int
  matchedSlash :: bool
  preDotState :: int

definition ext_init :: ext_state where
  "ext_init = \<lparr>startDot = - 1, startPart = 0, ext_end = - 1, matchedSlash = True,
     preDotState = 0\<rparr>"

definition ext_char :: "char \<Rightarrow> int \<Rightarrow> ext_state \<Rightarrow> ext_state" where
  "ext_char code i st =
     (let st1 = (if ext_end st = - 1 then st\<lparr>matchedSlash := False, ext_end := i + 1\<rparr>
                 else st)
      in if code = CHR ''.'' then
           (if startDot st1 = - 1 then st1\<lparr>startDot := i\<rparr>
            else if preDotState st1 \<noteq> 1 then st1\<lparr>preDotState := 1\<rparr>
            else st1)
         else if startDot st1 \<noteq> - 1 then st1\<lparr>preDotState := - 1\<rparr>
         else st1)"

fun extname_loop :: "string \<Rightarrow> nat \<Rightarrow> ext_state \<Rightarrow> ext_state" where
  "extname_loop p 0 st = st"
| "extname_loop p (Suc i) st =
     (if p ! i = CHR ''/'' then
        (if \<not> matchedSlash st then st\<lparr>startPart := int i + 1\<rparr>
         else extname_loop p i st)
      else extname_loop p i (ext_char (p ! i) (int i) st))"

definition extname :: "string \<Rightarrow> string" where
  "extname p =
     (let st = extname_loop p (length p) ext_init
      in if startDot st = - 1 \<or> ext_end st = - 1 \<or> preDotState st = 0 \<or>
            (preDotState st = 1 \<and> startDot st = ext_end st - 1 \<and>
             startDot st = startPart st + 1)
         then []
         else js_slice p (startDot st) (ext_end st))"

text \<open>Node's \<open>path.basename\<close> (POSIX, no suffix argument), the same backwards pass.\<close>

record base_state =
  base_start :: int
  base_end :: int
  base_matchedSlash :: bool

fun basename_loop :: "string \<Rightarrow> nat \<Rightarrow> base_state \<Rightarrow> base_state" where
  "basename_loop p 0 st = st"
| "basename_loop p (Suc i) st =
     (if p ! i = CHR ''/'' then
        (if \<not> base_matchedSlash st then st\<lparr>base_start := int i + 1\<rparr>
         else basename_loop p i st)
      else if base_end st = - 1 then
        basename_loop p i (st\<lparr>base_matchedSlash := False, base_end := int i + 1\<rparr>)
      else basename_loop p i st)"

definition basename :: "string \<Rightarrow> string" where
  "basename p =
     (let st = basename_loop p (length p)
                 \<lparr>base_start = 0, base_end = - 1, base_matchedSlash = True\<rparr>
      in if base_end st = - 1 then [] else js_slice p (base_start st) (base_end st))"

text \<open>\<open>s.includes(t)\<close>: \<open>t\<close> occurs in \<open>s\<close> as a contiguous run.\<close>

fun js_includes :: "string \<Rightarrow> string \<Rightarrow> bool" where
  "js_includes [] t = (t = [])"
| "js_includes (c # cs) t = (prefix t (c # cs) \<or> js_includes cs t)"

text \<open>\<open>s.replace(/c/g, r)\<close> for a single literal character \<open>c\<close>.\<close>

definition replace_all :: "char \<Rightarrow> string \<Rightarrow> string \<Rightarrow> string" where
  "replace_all c r s = concat (map (\<lambda>x. if x = c then r else [x]) s)"

section \<open>Entry Filter (filter.ts)\<close>

record FilterOptions =
  opt_extensions :: "string list option"
  opt_exclude :: "string list option"
  opt_include :: "string list option"
  opt_type :: "EntryType option"
  opt_maxFileSize :: "int option"

definition getExtension :: "(string \<Rightarrow> string) \<Rightarrow> string \<Rightarrow> string" where
  "getExtension lower filePath = (let ext = extname filePath in lower ext)"

text \<open>
  \<open>new RegExp(source)\<close> belongs to the runtime: the parameter \<open>re\<close> gives \<open>None\<close> where the
  constructor throws a SyntaxError, and the compiled expression's \<open>test\<close> otherwise.
\<close>

type_synonym regexp = "string \<Rightarrow> (string \<Rightarrow> bool) option"

definition pattern_source :: "string \<Rightarrow> string" where
  "pattern_source pattern =
     ''^'' @ replace_all CHR ''*'' ''.*''
               (replace_all CHR ''.'' [CHR 0x5C, CHR ''.''] pattern) @ ''$''"

definition matchesPattern :: "regexp \<Rightarrow> string \<Rightarrow> string \<Rightarrow> error + bool" where
  "matchesPattern re filePath pattern =
     (if CHR ''*'' \<in> set pattern then
        (let source = pattern_source pattern
         in case re source of
              None \<Rightarrow> Inl (RegExpSyntaxError source)
            | Some test \<Rightarrow> Inr (test filePath \<or> test (basename filePath)))
      else Inr (js_includes filePath pattern \<or> js_includes (basename filePath) pattern))"

text \<open>\<open>patterns.some(p => matchesPattern(path, p))\<close>: stops at the first match or throw.\<close>

fun some_matches :: "regexp \<Rightarrow> string \<Rightarrow> string list \<Rightarrow> error + bool" where
  "some_matches re filePath [] = Inr False"
| "some_matches re filePath (pattern # patterns) =
     (case matchesPattern re filePath pattern of
        Inl e \<Rightarrow> Inl e
      | Inr True \<Rightarrow> Inr True
      | Inr False \<Rightarrow> some_matches re filePath patterns)"

definition normalize_ext :: "(string \<Rightarrow> string) \<Rightarrow> string \<Rightarrow> string" where
  "normalize_ext lower e =
     (if prefix ''.'' e then lower e else ''.'' @ lower e)"

text \<open>
  One turn of the loop of filterTree, stage by stage in the order of the source: the
  type filter, the include patterns, the exclude patterns, and for files the extension
  and size filters.
\<close>

definition type_skips :: "FilterOptions \<Rightarrow> TreeItem \<Rightarrow> bool" where
  "type_skips options item =
     (let typeFilter = (case opt_type options of None \<Rightarrow> TypeAll | Some t \<Rightarrow> t);
          isFile = (item_type item = Blob);
          isDir = (item_type item = Tree)
      in if typeFilter = TypeFile \<and> \<not> isFile then True
         else if typeFilter = TypeDir \<and> \<not> isDir then True
         else False)"

text \<open>\<open>Inr False\<close>: include patterns are given and none matches, so the item is skipped.\<close>

definition include_stage :: "regexp \<Rightarrow> FilterOptions \<Rightarrow> TreeItem \<Rightarrow> error + bool" where
  "include_stage re options item =
     (case opt_include options of
        None \<Rightarrow> Inr True
      | Some inc \<Rightarrow>
          if length inc > 0 then some_matches re (item_path item) inc else Inr True)"

text \<open>\<open>Inr True\<close>: an exclude pattern matches, so the item is skipped.\<close>

definition exclude_stage :: "regexp \<Rightarrow> FilterOptions \<Rightarrow> TreeItem \<Rightarrow> error + bool" where
  "exclude_stage re options item =
     (case opt_exclude options of
        None \<Rightarrow> Inr False
      | Some exc \<Rightarrow>
          if length exc > 0 then some_matches re (item_path item) exc else Inr False)"

definition extension_skips :: "(string \<Rightarrow> string) \<Rightarrow> FilterOptions \<Rightarrow> TreeItem \<Rightarrow> bool" where
  "extension_skips lower options item =
     (item_type item = Blob \<and>
      (case opt_extensions options of
         None \<Rightarrow> False
       | Some exts \<Rightarrow>
           length exts > 0 \<and> getExtension lower (item_path item) \<notin> set (map (normalize_ext lower) exts)))"

definition size_skips :: "FilterOptions \<Rightarrow> TreeItem \<Rightarrow> bool" where
  "size_skips options item =
     (item_type item = Blob \<and>
      (case opt_maxFileSize options of
         None \<Rightarrow> False
       | Some m \<Rightarrow>
           m \<noteq> 0 \<and> (case item_size item of None \<Rightarrow> False | Some s \<Rightarrow> s \<noteq> 0 \<and> s > m)))"

definition make_entry :: "(string \<Rightarrow> string) \<Rightarrow> TreeItem \<Rightarrow> FileEntry" where
  "make_entry lower item =
     (let isFile = (item_type item = Blob);
          ext = getExtension lower (item_path item)
      in \<lparr>entry_path = item_path item,
          entry_type = (if isFile then File else Directory),
          entry_sha = item_sha item,
          entry_size = item_size item,
          extension = (if isFile then (if ext \<noteq> [] then Some ext else None) else None),
          content = None\<rparr>)"

text \<open>\<open>Inr None\<close> is \<open>continue\<close>, \<open>Inr (Some entry)\<close> the entry pushed, \<open>Inl\<close> an exception.\<close>

definition filter_item ::
  "regexp \<Rightarrow> (string \<Rightarrow> string) \<Rightarrow> FilterOptions \<Rightarrow> TreeItem \<Rightarrow> error + FileEntry option" where
  "filter_item re lower options item =
     (if type_skips options item then Inr None
      else
        case include_stage re options item of
          Inl e \<Rightarrow> Inl e
        | Inr False \<Rightarrow> Inr None
        | Inr True \<Rightarrow>
            (case exclude_stage re options item of
               Inl e \<Rightarrow> Inl e
             | Inr True \<Rightarrow> Inr None
             | Inr False \<Rightarrow>
                 if extension_skips lower options item then Inr None
                 else if size_skips options item then Inr None
                 else Inr (Some (make_entry lower item))))"

fun filterTree_loop ::
  "regexp \<Rightarrow> (string \<Rightarrow> string) \<Rightarrow> FilterOptions \<Rightarrow> TreeItem list \<Rightarrow> FileEntry list \<Rightarrow> error + FileEntry list" where
  "filterTree_loop re lower options [] entries = Inr entries"
| "filterTree_loop re lower options (item # items) entries =
     (case filter_item re lower options item of
        Inl e \<Rightarrow> Inl e
      | Inr None \<Rightarrow> filterTree_loop re lower options items entries
      | Inr (Some entry) \<Rightarrow> filterTree_loop re lower options items (entries @ [entry]))"

definition filterTree ::
  "regexp \<Rightarrow> (string \<Rightarrow> string) \<Rightarrow> TreeItem list \<Rightarrow> FilterOptions \<Rightarrow> error + FileEntry list" where
  "filterTree re lower items options = filterTree_loop re lower options items []"

section \<open>Entry Sorter (filter.ts, sortEntries)\<close>

text \<open>\<open>s.split("/")\<close>: the segments between slashes; never the empty list.\<close>

fun js_split :: "char \<Rightarrow> string \<Rightarrow> string list" where
  "js_split c [] = [[]]"
| "js_split c (x # xs) =
     (if x = c then [] # js_split c xs
      else (case js_split c xs of
              [] \<Rightarrow> [[x]]
            | s # ss \<Rightarrow> (x # s) # ss))"

text \<open>
  The body of the comparator's \<open>for\<close> loop, from index \<open>i\<close> on, with the final
  \<open>return aParts.length - bParts.length\<close>. \<open>localeCompare\<close> belongs to the runtime and is
  the parameter \<open>lc\<close>.
\<close>

function compare_from ::
  "(string \<Rightarrow> string \<Rightarrow> int) \<Rightarrow> string list \<Rightarrow> string list \<Rightarrow> nat \<Rightarrow> int" where
  "compare_from lc aParts bParts i =
     (if i < min (length aParts) (length bParts) then
        (let aIsLast = (i = length aParts - 1);
             bIsLast = (i = length bParts - 1)
         in if \<not> aIsLast \<and> bIsLast then - 1
            else if aIsLast \<and> \<not> bIsLast then 1
            else (let cmp = lc (aParts ! i) (bParts ! i)
                  in if cmp \<noteq> 0 then cmp
                     else compare_from lc aParts bParts (i + 1)))
      else int (length aParts) - int (length bParts))"
  by pat_completeness auto
termination
  by (relation "measure (\<lambda>(lc, a, b, i). min (length a) (length b) - i)") auto

declare compare_from.simps [simp del]

definition compare_entries ::
  "(string \<Rightarrow> string \<Rightarrow> int) \<Rightarrow> FileEntry \<Rightarrow> FileEntry \<Rightarrow> int" where
  "compare_entries lc a b =
     compare_from lc (js_split CHR ''/'' (entry_path a)) (js_split CHR ''/'' (entry_path b)) 0"

text \<open>
  \<open>Array.prototype.sort\<close> with a comparator is stable; for a consistent comparator its
  result is the stable sorted arrangement, which insertion from the right computes: an
  element goes before the first later element it does not compare greater than.
\<close>

fun insert_by :: "('a \<Rightarrow> 'a \<Rightarrow> int) \<Rightarrow> 'a \<Rightarrow> 'a list \<Rightarrow> 'a list" where
  "insert_by cmp x [] = [x]"
| "insert_by cmp x (y # ys) =
     (if cmp x y \<le> 0 then x # y # ys else y # insert_by cmp x ys)"

definition js_sort :: "('a \<Rightarrow> 'a \<Rightarrow> int) \<Rightarrow> 'a list \<Rightarrow> 'a list" where
  "js_sort cmp xs = foldr (insert_by cmp) xs []"

definition sortEntries ::
  "(string \<Rightarrow> string \<Rightarrow> int) \<Rightarrow> FileEntry list \<Rightarrow> FileEntry list" where
  "sortEntries lc entries = js_sort (compare_entries lc) entries"

section \<open>Remote Tree Client (github.ts)\<close>

record RateLimitInfo =
  limit :: int
  remaining :: int
  used :: int
  reset :: int

text \<open>
  What the client reads of a response: the status line, the four rate-limit headers
  (\<open>rate_headers\<close> is \<open>Some\<close> when all four are present and non-empty, already parsed), and
  the fields of the JSON body that the methods read.
\<close>

record Response =
  status :: int
  statusText :: string
  rate_headers :: "RateLimitInfo option"
  default_branch :: string
  commit_tree_sha :: string
  tree_body :: TreeResponse
  blob_content :: string

definition ok :: "Response \<Rightarrow> bool" where
  "ok res = (200 \<le> status res \<and> status res \<le> 299)"

datatype request =
    GetRepo string
  | GetCommit string string
  | GetTree string string
  | GetBlob string string

text \<open>
  The network is a parameter: \<open>net k req\<close> is the answer to \<open>req\<close> when it is the request
  number \<open>k\<close> of the client (counted from 0), \<open>None\<close> when \<open>fetch\<close> itself rejects.
\<close>

type_synonym network = "nat \<Rightarrow> request \<Rightarrow> Response option"

text \<open>The client's fields, and the requests it has issued so far (oldest first).\<close>

record GitHubClient =
  token :: "string option"
  rateLimit_field :: "RateLimitInfo option"
  requests :: "request list"

definition new_GitHubClient :: "string option \<Rightarrow> GitHubClient" where
  "new_GitHubClient tok = \<lparr>token = tok, rateLimit_field = None, requests = []\<rparr>"

definition client_isAuthenticated :: "GitHubClient \<Rightarrow> bool" where
  "client_isAuthenticated c = (case token c of None \<Rightarrow> False | Some t \<Rightarrow> t \<noteq> [])"

definition client_rateLimit :: "GitHubClient \<Rightarrow> RateLimitInfo option" where
  "client_rateLimit c = rateLimit_field c"

definition updateRateLimit :: "GitHubClient \<Rightarrow> Response \<Rightarrow> GitHubClient" where
  "updateRateLimit c res =
     (case rate_headers res of
        None \<Rightarrow> c
      | Some info \<Rightarrow> c\<lparr>rateLimit_field := Some info\<rparr>)"

definition do_fetch :: "network \<Rightarrow> GitHubClient \<Rightarrow> request \<Rightarrow> Response option \<times> GitHubClient" where
  "do_fetch net c req = (net (length (requests c)) req, c\<lparr>requests := requests c @ [req]\<rparr>)"

definition getDefaultBranch ::
  "network \<Rightarrow> GitHubClient \<Rightarrow> string \<Rightarrow> (error + string) \<times> GitHubClient" where
  "getDefaultBranch net c repo =
     (case do_fetch net c (GetRepo repo) of
        (None, c1) \<Rightarrow> (Inl NetworkError, c1)
      | (Some res, c1) \<Rightarrow>
          (let c2 = updateRateLimit c1 res
           in if \<not> ok res then
                (if status res = 404 then (Inl (RepoNotFound repo), c2)
                 else if status res = 403 then (Inl RateLimitExceeded, c2)
                 else (Inl (ApiError (status res) (statusText res)), c2))
              else (Inr (default_branch res), c2)))"

text \<open>
  The second half of getTree, from \<open>if (!res.ok)\<close> on: \<open>res\<close> is the answer to the last
  commit lookup and \<open>targetBranch\<close> the branch it was made for.
\<close>

definition getTree_finish ::
  "network \<Rightarrow> GitHubClient \<Rightarrow> string \<Rightarrow> string \<Rightarrow> Response \<Rightarrow>
     (error + TreeResponse \<times> string) \<times> GitHubClient" where
  "getTree_finish net c repo targetBranch res =
     (if \<not> ok res then
        (if status res = 403 then (Inl RateLimitExceeded, c)
         else (Inl (CommitFailed (status res) (statusText res)), c))
      else
        (let treeSha = commit_tree_sha res
         in case do_fetch net c (GetTree repo treeSha) of
              (None, c1) \<Rightarrow> (Inl NetworkError, c1)
            | (Some treeRes, c1) \<Rightarrow>
                (let c2 = updateRateLimit c1 treeRes
                 in if \<not> ok treeRes then
                      (Inl (TreeFailed (status treeRes) (statusText treeRes)), c2)
                    else (Inr (tree_body treeRes, targetBranch), c2))))"

definition getTree ::
  "network \<Rightarrow> GitHubClient \<Rightarrow> string \<Rightarrow> string \<Rightarrow>
     (error + TreeResponse \<times> string) \<times> GitHubClient" where
  "getTree net c repo branch =
     (case do_fetch net c (GetCommit repo branch) of
        (None, c1) \<Rightarrow> (Inl NetworkError, c1)
      | (Some res, c1) \<Rightarrow>
          (let c2 = updateRateLimit c1 res
           in if \<not> ok res \<and> (status res = 404 \<or> status res = 422) then
                (case getDefaultBranch net c2 repo of
                   (Inl e, c3) \<Rightarrow> (Inl e, c3)
                 | (Inr targetBranch, c3) \<Rightarrow>
                     (case do_fetch net c3 (GetCommit repo targetBranch) of
                        (None, c4) \<Rightarrow> (Inl NetworkError, c4)
                      | (Some res2, c4) \<Rightarrow>
                          getTree_finish net (updateRateLimit c4 res2) repo targetBranch res2))
              else getTree_finish net c2 repo branch res))"

text \<open>
  getBlobContent as request number \<open>k\<close>: the decoded body, or \<open>None\<close> when the promise
  rejects (a network failure or a status outside 200 to 299). Decoding base64 to UTF-8
  text is the runtime's \<open>Buffer\<close>, the parameter \<open>decode\<close>.
\<close>

definition getBlobContent ::
  "network \<Rightarrow> (string \<Rightarrow> string) \<Rightarrow> nat \<Rightarrow> string \<Rightarrow> string \<Rightarrow> string option" where
  "getBlobContent net decode k repo sha =
     (case net k (GetBlob repo sha) of
        None \<Rightarrow> None
      | Some res \<Rightarrow> if \<not> ok res then None else Some (decode (blob_content res)))"

section \<open>Batched Content Fetcher (content.ts)\<close>

definition DEFAULT_CONCURRENCY :: int where
  "DEFAULT_CONCURRENCY = 5"

definition DEFAULT_MAX_FILE_SIZE :: int where
  "DEFAULT_MAX_FILE_SIZE = 1024 * 1024"

text \<open>
  \<open>onProgress\<close> is modelled by whether an observer is supplied; its calls are recorded in
  the run's \<open>progress\<close> list, as pairs (completed, total).
\<close>

record FetchContentOptions =
  fc_concurrency :: "int option"
  fc_maxFileSize :: "int option"
  fc_filterShas :: "string set option"
  fc_onProgress :: bool

text \<open>The predicate of \<open>entries.filter\<close>: the files that need content fetched.\<close>

definition needs_fetch :: "int \<Rightarrow> string set option \<Rightarrow> FileEntry \<Rightarrow> bool" where
  "needs_fetch maxFileSize filterShas e =
     (if entry_type e \<noteq> File then False
      else if (case entry_size e of None \<Rightarrow> False | Some s \<Rightarrow> s \<noteq> 0 \<and> s > maxFileSize)
        then False
      else if (case filterShas of None \<Rightarrow> False | Some shas \<Rightarrow> entry_sha e \<notin> shas)
        then False
      else True)"

text \<open>
  The variables of the batch loop: \<open>completed\<close> and \<open>results\<close> are the source's; \<open>progress\<close>
  lists the observer's calls; \<open>issued\<close> counts the getBlobContent calls made so far; and
  \<open>batches\<close> lists each batch with the value of \<open>completed\<close> at the moment it was cut.
\<close>

record fetch_state =
  completed :: nat
  results :: "string \<rightharpoonup> string"
  progress :: "(nat \<times> nat) list"
  issued :: nat
  batches :: "(nat \<times> FileEntry list) list"

definition fetch_init :: fetch_state where
  "fetch_init = \<lparr>completed = 0, results = Map.empty, progress = [], issued = 0, batches = []\<rparr>"

text \<open>
  One settled promise, as the inner \<open>for\<close> loop treats it: \<open>Some\<close> is "fulfilled", \<open>None\<close>
  "rejected".
\<close>

definition settle :: "bool \<Rightarrow> nat \<Rightarrow> fetch_state \<Rightarrow> string \<times> string option \<Rightarrow> fetch_state" where
  "settle observer total_files st r =
     (let st1 = (case snd r of
                   None \<Rightarrow> st
                 | Some text \<Rightarrow> st\<lparr>results := (results st)(fst r \<mapsto> text)\<rparr>);
          st2 = st1\<lparr>completed := completed st1 + 1\<rparr>
      in if observer then st2\<lparr>progress := progress st2 @ [(completed st2, total_files)]\<rparr>
         else st2)"

text \<open>
  One batch: every member's fetch is issued (the calls are numbered in batch order),
  \<open>Promise.allSettled\<close> waits for all of them, and the outcomes are treated in batch
  order. \<open>fetch k sha\<close> is the outcome of call number \<open>k\<close>.
\<close>

definition run_batch ::
  "(nat \<Rightarrow> string \<Rightarrow> string option) \<Rightarrow> bool \<Rightarrow> nat \<Rightarrow> fetch_state \<Rightarrow> FileEntry list \<Rightarrow>
     fetch_state" where
  "run_batch fetch observer total_files st batch =
     (let batchResults =
            map (\<lambda>(k, entry). (entry_sha entry, fetch k (entry_sha entry)))
              (zip [issued st ..< issued st + length batch] batch);
          st1 = st\<lparr>issued := issued st + length batch,
                   batches := batches st @ [(completed st, batch)]\<rparr>
      in foldl (settle observer total_files) st1 batchResults)"

text \<open>
  The batch loop \<open>for (let i = 0; i < filesToFetch.length; i += concurrency)\<close>. It need
  not end (a concurrency of 0 never advances), so not returning is the value \<open>None\<close>.
\<close>

partial_function (option) fetch_loop ::
  "(nat \<Rightarrow> string \<Rightarrow> string option) \<Rightarrow> bool \<Rightarrow> FileEntry list \<Rightarrow> int \<Rightarrow> int \<Rightarrow> fetch_state \<Rightarrow>
     fetch_state option" where
  "fetch_loop fetch observer filesToFetch concurrency i st =
     (if i < int (length filesToFetch) then
        fetch_loop fetch observer filesToFetch concurrency (i + concurrency)
          (run_batch fetch observer (length filesToFetch) st
             (js_slice filesToFetch i (i + concurrency)))
      else Some st)"

definition merge_content :: "(string \<rightharpoonup> string) \<Rightarrow> FileEntry \<Rightarrow> FileEntry" where
  "merge_content res entry =
     (if entry_type entry = File \<and> res (entry_sha entry) \<noteq> None
      then entry\<lparr>content := res (entry_sha entry)\<rparr>
      else entry)"

text \<open>The options after destructuring: the concurrency, and the list \<open>filesToFetch\<close>.\<close>

definition concurrency_value :: "FetchContentOptions \<Rightarrow> int" where
  "concurrency_value options =
     (case fc_concurrency options of None \<Rightarrow> DEFAULT_CONCURRENCY | Some n \<Rightarrow> n)"

definition maxFileSize_value :: "FetchContentOptions \<Rightarrow> int" where
  "maxFileSize_value options =
     (case fc_maxFileSize options of None \<Rightarrow> DEFAULT_MAX_FILE_SIZE | Some m \<Rightarrow> m)"

definition filesToFetch_of :: "FileEntry list \<Rightarrow> FetchContentOptions \<Rightarrow> FileEntry list" where
  "filesToFetch_of entries options =
     filter (needs_fetch (maxFileSize_value options) (fc_filterShas options)) entries"

text \<open>
  fetchContent returns the entry list; the model returns with it the final variables of
  the run (\<open>fetch_init\<close> when the function returns early).
\<close>

definition fetchContent ::
  "(nat \<Rightarrow> string \<Rightarrow> string option) \<Rightarrow> FileEntry list \<Rightarrow> FetchContentOptions \<Rightarrow>
     (FileEntry list \<times> fetch_state) option" where
  "fetchContent fetch entries options =
     (let concurrency = concurrency_value options;
          filesToFetch = filesToFetch_of entries options
      in if length filesToFetch = 0 then Some (entries, fetch_init)
         else
           case fetch_loop fetch (fc_onProgress options) filesToFetch concurrency 0 fetch_init of
             None \<Rightarrow> None
           | Some st \<Rightarrow> Some (map (merge_content (results st)) entries, st))"

section \<open>Result Assembler (index.ts)\<close>

record RepoFetchResult =
  repo :: string
  branch :: string
  truncated :: bool
  files :: "FileEntry list"
  rateLimit :: "RateLimitInfo option"
  isAuthenticated :: "bool option"

record RepoFetchOptions =
  ro_branch :: "string option"
  ro_token :: "string option"
  ro_extensions :: "string list option"
  ro_exclude :: "string list option"
  ro_include :: "string list option"
  ro_type :: "EntryType option"
  ro_content :: "bool option"
  ro_shas :: "string list option"
  ro_maxFileSize :: "int option"
  ro_concurrency :: "int option"

text \<open>The options after destructuring, with the defaults of the source.\<close>

definition branch_of :: "RepoFetchOptions \<Rightarrow> string" where
  "branch_of options = (case ro_branch options of None \<Rightarrow> ''main'' | Some b \<Rightarrow> b)"

definition content_of :: "RepoFetchOptions \<Rightarrow> bool" where
  "content_of options = (case ro_content options of None \<Rightarrow> False | Some b \<Rightarrow> b)"

definition maxFileSize_of :: "RepoFetchOptions \<Rightarrow> int" where
  "maxFileSize_of options =
     (case ro_maxFileSize options of None \<Rightarrow> 1024 * 1024 | Some m \<Rightarrow> m)"

definition concurrency_of :: "RepoFetchOptions \<Rightarrow> int" where
  "concurrency_of options = (case ro_concurrency options of None \<Rightarrow> 5 | Some n \<Rightarrow> n)"

text \<open>The options object handed to filterTree.\<close>

definition filter_options :: "RepoFetchOptions \<Rightarrow> FilterOptions" where
  "filter_options options =
     \<lparr>opt_extensions = ro_extensions options,
      opt_exclude = ro_exclude options,
      opt_include = ro_include options,
      opt_type = ro_type options,
      opt_maxFileSize =
        (if content_of options then Some (maxFileSize_of options) else None)\<rparr>"

text \<open>The condition \<open>content || (shas && shas.length > 0)\<close>.\<close>

definition wants_content :: "RepoFetchOptions \<Rightarrow> bool" where
  "wants_content options =
     (content_of options \<or>
      (case ro_shas options of None \<Rightarrow> False | Some shas \<Rightarrow> length shas > 0))"

text \<open>The options object handed to fetchContent; no observer is passed.\<close>

definition content_options :: "RepoFetchOptions \<Rightarrow> FetchContentOptions" where
  "content_options options =
     \<lparr>fc_concurrency = Some (concurrency_of options),
      fc_maxFileSize = Some (maxFileSize_of options),
      fc_filterShas = (case ro_shas options of None \<Rightarrow> None | Some shas \<Rightarrow> Some (set shas)),
      fc_onProgress = False\<rparr>"

text \<open>
  The object literal of the \<open>return\<close>: the four properties the source writes. The two
  optional properties of RepoFetchResult that it does not write are \<open>None\<close>.
\<close>

definition result_object ::
  "string \<Rightarrow> string \<Rightarrow> TreeResponse \<Rightarrow> FileEntry list \<Rightarrow> RepoFetchResult" where
  "result_object repo_id actualBranch tree entries =
     \<lparr>repo = repo_id, branch = actualBranch, truncated = tree_truncated tree,
      files = entries, rateLimit = None, isAuthenticated = None\<rparr>"

text \<open>
  The runtime's parts are parameters: \<open>lc\<close> is \<open>localeCompare\<close>, \<open>re\<close> the \<open>RegExp\<close>
  constructor, \<open>decode\<close> the base64 decoder and \<open>net\<close> the network. The outer \<open>option\<close> is
  \<open>None\<close> when the call never returns, \<open>Inl\<close> is the rejection of the promise. The blob
  requests of fetchContent continue the numbering of the client's requests. Each blob
  response also writes the client's rate-limit field, in the order the responses
  arrive; repofetch never reads the client after getTree, and the model does not follow
  the field further.
\<close>

definition repofetch ::
  "(string \<Rightarrow> string \<Rightarrow> int) \<Rightarrow> regexp \<Rightarrow> (string \<Rightarrow> string) \<Rightarrow>
     (string \<Rightarrow> string) \<Rightarrow> network \<Rightarrow> string \<Rightarrow> RepoFetchOptions \<Rightarrow>
     (error + RepoFetchResult) option" where
  "repofetch lc re lower decode net repo_id options =
     (let client = new_GitHubClient (ro_token options)
      in case getTree net client repo_id (branch_of options) of
           (Inl e, client1) \<Rightarrow> Some (Inl e)
         | (Inr (tree, actualBranch), client1) \<Rightarrow>
             (case filterTree re lower (tree_items tree) (filter_options options) of
                Inl e \<Rightarrow> Some (Inl e)
              | Inr filtered \<Rightarrow>
                  (let entries = sortEntries lc filtered
                   in if wants_content options then
                        (case fetchContent
                                (\<lambda>k sha. getBlobContent net decode
                                            (length (requests client1) + k) repo_id sha)
                                entries (content_options options) of
                           None \<Rightarrow> None
                         | Some (entries', st) \<Rightarrow>
                             Some (Inr (result_object repo_id actualBranch tree entries')))
                      else Some (Inr (result_object repo_id actualBranch tree entries)))))"

section \<open>Definitions used to state the properties\<close>

text \<open>A directory entry and a file inside it.\<close>

definition dir_src :: FileEntry where
  "dir_src = \<lparr>entry_path = ''src'', entry_type = Directory, entry_sha = ''d1'',
     entry_size = None, extension = None, content = None\<rparr>"

definition file_src_index :: FileEntry where
  "file_src_index = \<lparr>entry_path = ''src/index.ts'', entry_type = File, entry_sha = ''f1'',
     entry_size = Some 20, extension = Some ''.ts'', content = None\<rparr>"

text \<open>A pattern whose regular expression, if it needs one, the runtime accepts.\<close>

definition pattern_ok :: "regexp \<Rightarrow> string \<Rightarrow> bool" where
  "pattern_ok re pattern =
     (if CHR ''*'' \<in> set pattern then re (pattern_source pattern) \<noteq> None else True)"

text \<open>The entry an item contributes to the output of filterTree, if any.\<close>

definition kept ::
  "regexp \<Rightarrow> (string \<Rightarrow> string) \<Rightarrow> FilterOptions \<Rightarrow> TreeItem \<Rightarrow> FileEntry option" where
  "kept re lower options item = (case filter_item re lower options item of Inl e \<Rightarrow> None | Inr r \<Rightarrow> r)"

definition blob_item :: "string \<Rightarrow> string \<Rightarrow> int \<Rightarrow> TreeItem" where
  "blob_item p s n =
     \<lparr>item_path = p, item_mode = ''100644'', item_type = Blob, item_sha = s,
      item_size = Some n\<rparr>"

definition dir_item :: "string \<Rightarrow> string \<Rightarrow> TreeItem" where
  "dir_item p s =
     \<lparr>item_path = p, item_mode = ''040000'', item_type = Tree, item_sha = s,
      item_size = None\<rparr>"

definition file_entry :: "string \<Rightarrow> string \<Rightarrow> int \<Rightarrow> FileEntry" where
  "file_entry p s n =
     \<lparr>entry_path = p, entry_type = File, entry_sha = s, entry_size = Some n,
      extension = None, content = None\<rparr>"

definition no_filter :: FilterOptions where
  "no_filter = \<lparr>opt_extensions = None, opt_exclude = None, opt_include = None,
     opt_type = None, opt_maxFileSize = None\<rparr>"

definition w9_options :: FilterOptions where
  "w9_options = no_filter\<lparr>opt_include := Some [''src''], opt_exclude := Some [''test'']\<rparr>"

definition no_regexp :: regexp where
  "no_regexp = (\<lambda>source. None)"

text \<open>
  The patterns of a list as \<open>some\<close> evaluates them for a path. None matches: every pattern
  evaluates to false. Otherwise the first pattern that does not evaluate to false decides,
  with a match or with the exception it throws, and the patterns after it are not
  evaluated.
\<close>

definition none_matches :: "regexp \<Rightarrow> string \<Rightarrow> string list \<Rightarrow> bool" where
  "none_matches re filePath ps = (\<forall>p \<in> set ps. matchesPattern re filePath p = Inr False)"

definition first_decisive ::
  "regexp \<Rightarrow> string \<Rightarrow> string list \<Rightarrow> error + bool \<Rightarrow> bool" where
  "first_decisive re filePath ps r =
     (\<exists>ps1 p ps2. ps = ps1 @ p # ps2 \<and> none_matches re filePath ps1 \<and>
        matchesPattern re filePath p = r \<and> r \<noteq> Inr False)"

text \<open>
  The stages in the words of the specification: the include patterns admit an item when
  none is given or one matches, the exclude patterns let it through when none matches,
  and an item passes when no stage drops it.
\<close>

definition include_passes :: "regexp \<Rightarrow> FilterOptions \<Rightarrow> TreeItem \<Rightarrow> bool" where
  "include_passes re options item =
     (case opt_include options of
        None \<Rightarrow> True
      | Some inc \<Rightarrow> inc = [] \<or> first_decisive re (item_path item) inc (Inr True))"

definition exclude_clear :: "regexp \<Rightarrow> FilterOptions \<Rightarrow> TreeItem \<Rightarrow> bool" where
  "exclude_clear re options item =
     (case opt_exclude options of
        None \<Rightarrow> True
      | Some exc \<Rightarrow> none_matches re (item_path item) exc)"

definition passes_all ::
  "regexp \<Rightarrow> (string \<Rightarrow> string) \<Rightarrow> FilterOptions \<Rightarrow> TreeItem \<Rightarrow> bool" where
  "passes_all re lower options item =
     (\<not> type_skips options item \<and> include_passes re options item \<and>
      exclude_clear re options item \<and> \<not> extension_skips lower options item \<and>
      \<not> size_skips options item)"


text \<open>
  Options and items that tell the stages apart. Under \<open>no_regexp\<close> a pattern with a star
  throws where it is evaluated, so a stage that runs shows in the outcome.
\<close>

definition w9_dirs_only :: FilterOptions where
  "w9_dirs_only = no_filter\<lparr>opt_type := Some TypeDir, opt_include := Some [''*.ts'']\<rparr>"

definition w9_include_miss :: FilterOptions where
  "w9_include_miss =
     no_filter\<lparr>opt_include := Some [''docs''], opt_exclude := Some [''*.ts'']\<rparr>"

definition w9_include_throws :: FilterOptions where
  "w9_include_throws =
     no_filter\<lparr>opt_include := Some [''*.md''], opt_exclude := Some [''src'']\<rparr>"

definition w9_exclude_throws :: FilterOptions where
  "w9_exclude_throws =
     no_filter\<lparr>opt_include := Some [''src''], opt_exclude := Some [''*.md''],
       opt_extensions := Some [''md'']\<rparr>"

definition a_ts :: TreeItem where
  "a_ts = blob_item ''src/a.ts'' ''s2'' 7"

definition test_ts :: TreeItem where
  "test_ts = blob_item ''src/test.ts'' ''s1'' 5"

text \<open>
  The content option is false or absent and no object id is asked for: repofetch does
  not call fetchContent.
\<close>

definition content_off :: "RepoFetchOptions \<Rightarrow> bool" where
  "content_off options =
     ((case ro_content options of None \<Rightarrow> True | Some b \<Rightarrow> b = False) \<and>
      (case ro_shas options of None \<Rightarrow> True | Some shas \<Rightarrow> shas = []))"

text \<open>A network that answers every request with status 200 and rate-limit headers.\<close>

definition demo_rate :: RateLimitInfo where
  "demo_rate = \<lparr>limit = 60, remaining = 57, used = 3, reset = 1700000000\<rparr>"

definition demo_response :: "TreeItem list \<Rightarrow> Response" where
  "demo_response items =
     \<lparr>status = 200, statusText = ''OK'', rate_headers = Some demo_rate,
      default_branch = ''main'', commit_tree_sha = ''t1'',
      tree_body = \<lparr>tree_sha = ''t1'', tree_items = items, tree_truncated = False\<rparr>,
      blob_content = ''aGk=''\<rparr>"

definition demo_net :: "TreeItem list \<Rightarrow> network" where
  "demo_net items = (\<lambda>k req. Some (demo_response items))"

definition demo_options :: RepoFetchOptions where
  "demo_options =
     \<lparr>ro_branch = None, ro_token = Some ''ghp_token'', ro_extensions = None,
      ro_exclude = None, ro_include = None, ro_type = None, ro_content = None,
      ro_shas = None, ro_maxFileSize = Some 10, ro_concurrency = None\<rparr>"

definition big_item :: TreeItem where
  "big_item = blob_item ''big.bin'' ''s9'' 5000000"

definition status_response :: "int \<Rightarrow> string \<Rightarrow> Response" where
  "status_response code branch_name =
     \<lparr>status = code, statusText = ''text'', rate_headers = None,
      default_branch = branch_name, commit_tree_sha = ''t1'',
      tree_body = \<lparr>tree_sha = ''t1'', tree_items = [], tree_truncated = False\<rparr>,
      blob_content = []\<rparr>"

text \<open>
  The first commit lookup is answered 404; later requests are answered 200, except the
  commit lookups for the branch \<open>bad\<close>, which are answered 404 as well.
\<close>

definition fallback_net :: "string \<Rightarrow> network" where
  "fallback_net dflt k req =
     (if k = 0 then Some (status_response 404 dflt)
      else if req = GetCommit ''octo/demo'' ''bad'' then Some (status_response 404 dflt)
      else Some (status_response 200 dflt))"

text \<open>
  The partition in the specification's words: consecutive groups of at most \<open>n\<close> elements,
  in the original order.
\<close>

function consecutive_groups :: "nat \<Rightarrow> 'a list \<Rightarrow> 'a list list" where
  "consecutive_groups n xs =
     (if n = 0 \<or> xs = [] then [] else take n xs # consecutive_groups n (drop n xs))"
  by pat_completeness auto
termination
  by (relation "measure (\<lambda>(n, xs). length xs)") auto

declare consecutive_groups.simps [simp del]

text \<open>
  The outcomes of the fetches for a list of entries, the first being call number \<open>k0\<close>, and
  the map they leave in \<open>results\<close>.
\<close>

definition outcomes ::
  "(nat \<Rightarrow> string \<Rightarrow> string option) \<Rightarrow> nat \<Rightarrow> FileEntry list \<Rightarrow> (string \<times> string option) list" where
  "outcomes fetch k0 es =
     map (\<lambda>(k, entry). (entry_sha entry, fetch k (entry_sha entry)))
       (zip [k0 ..< k0 + length es] es)"

fun record_results ::
  "(string \<rightharpoonup> string) \<Rightarrow> (string \<times> string option) list \<Rightarrow> (string \<rightharpoonup> string)" where
  "record_results m [] = m"
| "record_results m (r # rs) =
     record_results (case snd r of None \<Rightarrow> m | Some text \<Rightarrow> m(fst r \<mapsto> text)) rs"

text \<open>Each group with the number of entries in the groups before it.\<close>

fun group_starts :: "nat \<Rightarrow> 'a list list \<Rightarrow> (nat \<times> 'a list) list" where
  "group_starts c [] = []"
| "group_starts c (g # gs) = (c, g) # group_starts (c + length g) gs"

definition three_files :: "FileEntry list" where
  "three_files = [file_entry ''a.ts'' ''s1'' 10, file_entry ''b.ts'' ''s2'' 20,
                  file_entry ''c.ts'' ''s3'' 30]"

definition two_at_a_time :: FetchContentOptions where
  "two_at_a_time = \<lparr>fc_concurrency = Some 2, fc_maxFileSize = None, fc_filterShas = None,
     fc_onProgress = False\<rparr>"

definition fetch_all :: "nat \<Rightarrow> string \<Rightarrow> string option" where
  "fetch_all k sha = Some (''body of '' @ sha)"

text \<open>An entry qualifies for a fetch under the options given.\<close>

definition qualifies :: "FetchContentOptions \<Rightarrow> FileEntry \<Rightarrow> bool" where
  "qualifies options e = needs_fetch (maxFileSize_value options) (fc_filterShas options) e"

text \<open>
  The number of the getBlobContent call made for the entry at position \<open>i\<close>, when it
  qualifies: the number of qualifying entries before it.
\<close>

definition own_call :: "FileEntry list \<Rightarrow> FetchContentOptions \<Rightarrow> nat \<Rightarrow> nat" where
  "own_call entries options i = length (filesToFetch_of (take i entries) options)"

text \<open>Some fetch of the object \<open>s\<close>, made for a qualifying entry, succeeded.\<close>

definition id_fetched ::
  "(nat \<Rightarrow> string \<Rightarrow> string option) \<Rightarrow> FileEntry list \<Rightarrow> string \<Rightarrow> bool" where
  "id_fetched fetch fs s = (\<exists>j < length fs. entry_sha (fs ! j) = s \<and> fetch j s \<noteq> None)"

text \<open>
  The frame property as the specification words it: the call returns a list of the same
  length in which an entry carries the body of its own fetch when it qualifies and that
  fetch succeeded, and is the input entry otherwise.
\<close>

definition returns_as_specified ::
  "(nat \<Rightarrow> string \<Rightarrow> string option) \<Rightarrow> FileEntry list \<Rightarrow> FetchContentOptions \<Rightarrow> bool" where
  "returns_as_specified fetch entries options =
     (case fetchContent fetch entries options of
        None \<Rightarrow> False
      | Some (out, st) \<Rightarrow>
          length out = length entries \<and>
          (\<forall>i < length entries.
             out ! i =
               (if qualifies options (entries ! i) \<and>
                   fetch (own_call entries options i) (entry_sha (entries ! i)) \<noteq> None
                then (entries ! i)
                       \<lparr>content := fetch (own_call entries options i) (entry_sha (entries ! i))\<rparr>
                else entries ! i)))"

text \<open>Inputs for the examples.\<close>

definition default_fetch_options :: FetchContentOptions where
  "default_fetch_options = \<lparr>fc_concurrency = None, fc_maxFileSize = None,
     fc_filterShas = None, fc_onProgress = False\<rparr>"

definition twins :: "FileEntry list" where
  "twins = [file_entry ''a.txt'' ''s'' 5, file_entry ''copy/a.txt'' ''s'' 5]"

definition size_twins :: "FileEntry list" where
  "size_twins = [file_entry ''a.bin'' ''s'' 5, file_entry ''b.bin'' ''s'' 2000000]"

text \<open>The first call fails, every later call succeeds.\<close>

definition fetch_second :: "nat \<Rightarrow> string \<Rightarrow> string option" where
  "fetch_second k sha = (if k = 0 then None else Some ''hello'')"

text \<open>Every fetch of the object \<open>s2\<close> fails, every other fetch succeeds.\<close>

definition fail_s2 :: "nat \<Rightarrow> string \<Rightarrow> string option" where
  "fail_s2 k sha = (if sha = ''s2'' then None else Some (''body of '' @ sha))"

text \<open>
  The final segment of a path: what follows its last slash, trailing slashes set aside
  (a path of a git tree has none). Then the text after the segment's last dot, and the
  text before it.
\<close>

definition final_segment :: "string \<Rightarrow> string" where
  "final_segment p =
     rev (takeWhile (\<lambda>c. c \<noteq> CHR ''/'') (dropWhile (\<lambda>c. c = CHR ''/'') (rev p)))"

definition after_last_dot :: "string \<Rightarrow> string" where
  "after_last_dot seg = rev (takeWhile (\<lambda>c. c \<noteq> CHR ''.'') (rev seg))"

definition before_last_dot :: "string \<Rightarrow> string" where
  "before_last_dot seg = rev (drop 1 (dropWhile (\<lambda>c. c \<noteq> CHR ''.'') (rev seg)))"

text \<open>
  The backwards pass of \<open>extname\<close> as a recursion over the reversed path (\<open>scan\<close>), and
  its part inside one segment, \<open>b\<close> characters from the start of the path (\<open>scan_seg\<close>).
\<close>

fun scan :: "char list \<Rightarrow> ext_state \<Rightarrow> ext_state" where
  "scan [] st = st"
| "scan (c # cs) st =
     (if c = CHR ''/'' then
        (if \<not> matchedSlash st then st\<lparr>startPart := int (length cs) + 1\<rparr> else scan cs st)
      else scan cs (ext_char c (int (length cs)) st))"

fun scan_seg :: "char list \<Rightarrow> nat \<Rightarrow> ext_state \<Rightarrow> ext_state" where
  "scan_seg [] b st = st"
| "scan_seg (c # cs) b st = scan_seg cs b (ext_char c ((int (length cs) + int b)) st)"

text \<open>
  The invariant as the specification words it: the extension is set exactly when the
  entry is a file and the text after the last dot of the final segment is not empty.
\<close>

definition extension_as_specified :: "FileEntry \<Rightarrow> bool" where
  "extension_as_specified e =
     ((extension e \<noteq> None) =
      (entry_type e = File \<and>
       CHR ''.'' \<in> set (final_segment (entry_path e)) \<and>
       after_last_dot (final_segment (entry_path e)) \<noteq> []))"

text \<open>
  A value for the parameter \<open>lower\<close> in the examples: the letters A to Z go to a to z and
  every other code unit is kept. On a string of ASCII characters this is what the
  runtime's \<open>toLowerCase\<close> returns, and the strings of the examples are ASCII.
\<close>

definition ascii_lower_char :: "char \<Rightarrow> char" where
  "ascii_lower_char c =
     (let n = (of_char c :: nat) in if 65 \<le> n \<and> n \<le> 90 then char_of (n + 32) else c)"

definition ascii_lower :: "string \<Rightarrow> string" where
  "ascii_lower s = map ascii_lower_char s"

definition gitignore_item :: TreeItem where
  "gitignore_item = blob_item ''.gitignore'' ''g1'' 12"

definition trailing_dot_item :: TreeItem where
  "trailing_dot_item = blob_item ''notes.'' ''n1'' 7"

section \<open>The runtime model on documented examples\<close>

text \<open>The examples of \<open>path.extname\<close> and \<open>path.basename\<close> in Node's documentation.\<close>

lemma extname_documented:
  "extname ''index.html'' = ''.html''"
  "extname ''index.coffee.md'' = ''.md''"
  "extname ''index.'' = ''.''"
  "extname ''index'' = []"
  "extname ''.index'' = []"
  "extname ''.index.md'' = ''.md''"
  by code_simp+

lemma basename_documented:
  "basename ''/foo/bar/baz/asdf/quux.html'' = ''quux.html''"
  by code_simp

lemma js_split_examples:
  "js_split CHR ''/'' ''src/index.ts'' = [''src'', ''index.ts'']"
  "js_split CHR ''/'' [] = [[]]"
  by code_simp+

section \<open>Properties of the Entry Sorter\<close>

lemma js_split_not_Nil [simp]: "js_split c p \<noteq> []"
  by (induction p) (auto split: list.splits)

lemma js_split_append:
  "js_split c (p @ c # q) = js_split c p @ js_split c q"
proof (induction p)
  case Nil
  then show ?case by simp
next
  case (Cons x p)
  obtain s ss where sp: "js_split c p = s # ss"
    by (cases "js_split c p") simp_all
  with Cons show ?case by simp
qed

text \<open>
  Towards C1: when the segments of one path are a proper prefix of the segments of
  another, the comparator puts the longer path first, provided \<open>localeCompare\<close> finds a
  string equal to itself.
\<close>

lemma compare_from_ancestor:
  assumes "\<forall>s. lc s s = 0" and "bs \<noteq> []"
  shows "i < length as \<Longrightarrow> compare_from lc as (as @ bs) i = 1"
proof (induction "length as - i" arbitrary: i)
  case 0
  then show ?case by simp
next
  case (Suc n)
  have m: "i < min (length as) (length (as @ bs))"
    using Suc.prems by simp
  have b: "i \<noteq> length (as @ bs) - 1"
    using Suc.prems assms(2) by (cases bs) auto
  show ?case
  proof (cases "i = length as - 1")
    case True
    with m b show ?thesis
      by (subst compare_from.simps) (simp add: Let_def)
  next
    case False
    then have nxt: "i + 1 < length as" "n = length as - (i + 1)"
      using Suc.prems Suc.hyps(2) by auto
    have same: "lc (as ! i) ((as @ bs) ! i) = 0"
      using assms(1) Suc.prems by (simp add: nth_append)
    have "compare_from lc as (as @ bs) i = compare_from lc as (as @ bs) (i + 1)"
      using m b False same by (subst compare_from.simps) (simp add: Let_def)
    with Suc.hyps(1) [OF nxt(2) nxt(1)] show ?thesis by simp
  qed
qed

lemma compare_entries_ancestor:
  assumes "\<forall>s. lc s s = 0" and "entry_path b = entry_path a @ CHR ''/'' # rest"
  shows "compare_entries lc a b = 1" and "insert_by (compare_entries lc) a [b] = [b, a]"
proof -
  have ne: "js_split CHR ''/'' rest \<noteq> []" "0 < length (js_split CHR ''/'' (entry_path a))"
    by simp_all
  show c: "compare_entries lc a b = 1"
    unfolding compare_entries_def assms(2) js_split_append
    by (rule compare_from_ancestor [where lc = lc, OF assms(1) ne])
  show "insert_by (compare_entries lc) a [b] = [b, a]"
    by (simp add: c)
qed

lemma compare_src_index: "compare_entries lc dir_src file_src_index = 1"
  by (simp add: compare_entries_def dir_src_def file_src_index_def compare_from.simps)

lemma compare_index_src: "compare_entries lc file_src_index dir_src = - 1"
  by (simp add: compare_entries_def dir_src_def file_src_index_def compare_from.simps)

text \<open>
  C1. The specification asks that the directory entry \<open>src\<close> be ordered before its descendant
  \<open>src/index.ts\<close>. On the code the comparator answers 1 for (\<open>src\<close>, \<open>src/index.ts\<close>): at
  index 0 the shorter path is at its last segment and the longer is not, so the branch
  \<open>aIsLast && !bIsLast\<close> returns before the names are compared and before the final
  length difference is reached. Whatever \<open>localeCompare\<close> is and whichever way round the
  two entries arrive, sortEntries puts the descendant first.
\<close>

theorem C1_sortEntries_descendant_first:
  "compare_entries lc dir_src file_src_index = 1 \<and>
   sortEntries lc [dir_src, file_src_index] = [file_src_index, dir_src] \<and>
   sortEntries lc [file_src_index, dir_src] = [file_src_index, dir_src]"
  by (simp add: sortEntries_def js_sort_def compare_src_index compare_index_src)

section \<open>Properties of the Entry Filter\<close>

text \<open>The type, extension and size filters on examples.\<close>

lemma extension_filter_examples:
  "\<not> extension_skips ascii_lower (no_filter\<lparr>opt_extensions := Some [''TS'']\<rparr>) a_ts"
  "\<not> extension_skips ascii_lower (no_filter\<lparr>opt_extensions := Some [''md'', ''.Ts'']\<rparr>) a_ts"
  "extension_skips ascii_lower (no_filter\<lparr>opt_extensions := Some [''md'']\<rparr>) a_ts"
  "\<not> extension_skips ascii_lower (no_filter\<lparr>opt_extensions := Some []\<rparr>) a_ts"
  "\<not> extension_skips ascii_lower (no_filter\<lparr>opt_extensions := Some [''md'']\<rparr>)
       (dir_item ''src'' ''d1'')"
  by code_simp+

lemma size_filter_examples:
  "\<not> size_skips (no_filter\<lparr>opt_maxFileSize := Some 7\<rparr>) a_ts"
  "size_skips (no_filter\<lparr>opt_maxFileSize := Some 6\<rparr>) a_ts"
  "\<not> size_skips (no_filter\<lparr>opt_maxFileSize := Some 0\<rparr>) a_ts"
  "\<not> size_skips (no_filter\<lparr>opt_maxFileSize := Some 6\<rparr>) (blob_item ''empty'' ''s3'' 0)"
  "\<not> size_skips (no_filter\<lparr>opt_maxFileSize := Some 6\<rparr>) (dir_item ''src'' ''d1'')"
  by (simp_all add: size_skips_def no_filter_def a_ts_def blob_item_def dir_item_def)

lemma type_filter_examples:
  "type_skips (no_filter\<lparr>opt_type := Some TypeFile\<rparr>) (dir_item ''src'' ''d1'')"
  "\<not> type_skips (no_filter\<lparr>opt_type := Some TypeFile\<rparr>) a_ts"
  "type_skips (no_filter\<lparr>opt_type := Some TypeDir\<rparr>) a_ts"
  "\<not> type_skips (no_filter\<lparr>opt_type := Some TypeDir\<rparr>) (dir_item ''src'' ''d1'')"
  "\<not> type_skips (no_filter\<lparr>opt_type := Some TypeAll\<rparr>) a_ts"
  "\<not> type_skips no_filter a_ts"
  by (simp_all add: type_skips_def no_filter_def a_ts_def blob_item_def dir_item_def)

lemma matchesPattern_ok:
  "pattern_ok re p \<Longrightarrow> matchesPattern re filePath p \<noteq> Inl e"
  by (cases "CHR ''*'' \<in> set p") (auto simp: pattern_ok_def matchesPattern_def)

lemma some_matches_ok:
  "list_all (pattern_ok re) ps \<Longrightarrow> some_matches re filePath ps \<noteq> Inl e"
  by (induction ps) (auto simp: matchesPattern_ok split: sum.splits bool.splits)

lemma some_matches_hit:
  "some_matches re filePath ps = Inr b \<Longrightarrow> q \<in> set ps \<Longrightarrow>
   matchesPattern re filePath q = Inr True \<Longrightarrow> b"
  by (induction ps) (auto split: sum.splits bool.splits if_splits)

lemma some_matches_False:
  "some_matches re filePath ps = Inr False \<Longrightarrow> q \<in> set ps \<Longrightarrow>
   matchesPattern re filePath q = Inr False"
  by (induction ps) (auto split: sum.splits bool.splits if_splits)

lemma filterTree_loop_Inr:
  "filterTree_loop re lower options items acc = Inr out \<Longrightarrow>
   out = acc @ List.map_filter (kept re lower options) items"
proof (induction items arbitrary: acc)
  case Nil
  then show ?case by (simp add: List.map_filter_simps)
next
  case (Cons item items)
  show ?case
  proof (cases "filter_item re lower options item")
    case (Inl e)
    with Cons.prems show ?thesis by simp
  next
    case (Inr r)
    show ?thesis
    proof (cases r)
      case None
      with Inr Cons.prems have "filterTree_loop re lower options items acc = Inr out" by simp
      from Cons.IH [OF this] show ?thesis
        using Inr None by (simp add: List.map_filter_simps kept_def)
    next
      case (Some entry)
      with Inr Cons.prems have "filterTree_loop re lower options items (acc @ [entry]) = Inr out"
        by simp
      from Cons.IH [OF this] show ?thesis
        using Inr Some by (simp add: List.map_filter_simps kept_def)
    qed
  qed
qed

lemma filterTree_loop_total:
  "list_all (\<lambda>item. \<forall>e. filter_item re lower options item \<noteq> Inl e) items \<Longrightarrow>
   filterTree_loop re lower options items acc \<noteq> Inl e"
  by (induction items arbitrary: acc) (auto split: sum.splits option.splits)

lemma filter_item_total:
  assumes "list_all (pattern_ok re) (case opt_include options of None \<Rightarrow> [] | Some ps \<Rightarrow> ps)"
      and "list_all (pattern_ok re) (case opt_exclude options of None \<Rightarrow> [] | Some ps \<Rightarrow> ps)"
  shows "filter_item re lower options item \<noteq> Inl e"
proof -
  have a: "include_stage re options item \<noteq> Inl e"
    using assms(1) some_matches_ok [of re _ "item_path item" e]
    by (simp add: include_stage_def split: option.splits)
  have b: "exclude_stage re options item \<noteq> Inl e"
    using assms(2) some_matches_ok [of re _ "item_path item" e]
    by (simp add: exclude_stage_def split: option.splits)
  show ?thesis
    using a b by (auto simp: filter_item_def split: sum.splits bool.splits)
qed

lemma filter_item_excluded:
  assumes "opt_exclude options = Some exc" "q \<in> set exc"
      and "matchesPattern re (item_path item) q = Inr True"
  shows "filter_item re lower options item = Inr (Some e) \<Longrightarrow> False"
proof -
  assume k: "filter_item re lower options item = Inr (Some e)"
  have ne: "length exc > 0" using assms(2) by (cases exc) auto
  from k have "exclude_stage re options item = Inr False"
    by (auto simp: filter_item_def split: if_splits sum.splits bool.splits)
  then have "some_matches re (item_path item) exc = Inr False"
    using assms(1) ne by (simp add: exclude_stage_def)
  from some_matches_hit [OF this assms(2,3)] show False .
qed

lemma filter_item_path:
  "filter_item re lower options item = Inr (Some e) \<Longrightarrow> entry_path e = item_path item"
  by (auto simp: filter_item_def make_entry_def Let_def split: if_splits sum.splits bool.splits)

lemma some_matches_skip:
  "none_matches re filePath ps1 \<Longrightarrow>
   some_matches re filePath (ps1 @ ps) = some_matches re filePath ps"
  by (induction ps1) (simp_all add: none_matches_def)

lemma some_matches_none:
  "none_matches re filePath ps \<Longrightarrow> some_matches re filePath ps = Inr False"
  using some_matches_skip [of re filePath ps "[]"] by simp

lemma some_matches_first:
  assumes "first_decisive re filePath ps r"
  shows "some_matches re filePath ps = r"
proof -
  from assms obtain ps1 p ps2 where d: "ps = ps1 @ p # ps2" "none_matches re filePath ps1"
    "matchesPattern re filePath p = r" "r \<noteq> Inr False"
    by (auto simp: first_decisive_def)
  have "some_matches re filePath (p # ps2) = r"
    using d(3,4) by (cases r) (auto split: bool.splits)
  with d(1,2) show ?thesis
    by (simp add: some_matches_skip)
qed

lemma some_matches_cases:
  "some_matches re filePath ps = r \<Longrightarrow>
   (r = Inr False \<and> none_matches re filePath ps) \<or> first_decisive re filePath ps r"
proof (induction ps)
  case Nil
  then show ?case by (auto simp: none_matches_def)
next
  case (Cons p ps)
  show ?case
  proof (cases "matchesPattern re filePath p = Inr False")
    case True
    with Cons.prems have "some_matches re filePath ps = r" by simp
    from Cons.IH [OF this] show ?thesis
    proof
      assume "r = Inr False \<and> none_matches re filePath ps"
      with True show ?thesis by (simp add: none_matches_def)
    next
      assume "first_decisive re filePath ps r"
      then obtain ps1 q ps2 where d: "ps = ps1 @ q # ps2" "none_matches re filePath ps1"
        "matchesPattern re filePath q = r" "r \<noteq> Inr False"
        by (auto simp: first_decisive_def)
      have "p # ps = (p # ps1) @ q # ps2" "none_matches re filePath (p # ps1)"
        using d(1,2) True by (simp_all add: none_matches_def)
      with d(3,4) have "first_decisive re filePath (p # ps) r"
        unfolding first_decisive_def by blast
      then show ?thesis ..
    qed
  next
    case False
    then have "some_matches re filePath (p # ps) = matchesPattern re filePath p"
      by (cases "matchesPattern re filePath p") (auto split: bool.splits)
    with Cons.prems have r: "matchesPattern re filePath p = r" by simp
    have "p # ps = [] @ p # ps" "none_matches re filePath []"
      by (simp_all add: none_matches_def)
    with r False have "first_decisive re filePath (p # ps) r"
      unfolding first_decisive_def by blast
    then show ?thesis ..
  qed
qed

lemma include_passes_iff:
  "include_passes re options item \<longleftrightarrow> include_stage re options item = Inr True"
proof (cases "opt_include options")
  case None
  then show ?thesis by (simp add: include_passes_def include_stage_def)
next
  case (Some inc)
  show ?thesis
  proof (cases "inc = []")
    case True
    with Some show ?thesis by (simp add: include_passes_def include_stage_def)
  next
    case False
    have "first_decisive re (item_path item) inc (Inr True) \<longleftrightarrow>
          some_matches re (item_path item) inc = Inr True"
      using some_matches_first [of re "item_path item" inc "Inr True"]
        some_matches_cases [of re "item_path item" inc "Inr True"]
      by auto
    with Some False show ?thesis by (simp add: include_passes_def include_stage_def)
  qed
qed

lemma exclude_clear_iff:
  "exclude_clear re options item \<longleftrightarrow> exclude_stage re options item = Inr False"
proof (cases "opt_exclude options")
  case None
  then show ?thesis by (simp add: exclude_clear_def exclude_stage_def)
next
  case (Some exc)
  have "none_matches re (item_path item) exc \<longleftrightarrow>
        some_matches re (item_path item) exc = Inr False"
    using some_matches_none [of re "item_path item" exc]
      some_matches_cases [of re "item_path item" exc "Inr False"]
    by (auto simp: first_decisive_def)
  with Some show ?thesis
    by (cases exc) (simp_all add: exclude_clear_def exclude_stage_def none_matches_def)
qed

lemma filter_item_passes_all:
  "filter_item re lower options item = Inr r \<Longrightarrow>
   r = (if passes_all re lower options item then Some (make_entry lower item) else None)"
  by (auto simp: filter_item_def passes_all_def include_passes_iff exclude_clear_iff
      split: if_splits sum.splits bool.splits)

lemma filterTree_loop_items:
  "filterTree_loop re lower options items acc = Inr out \<Longrightarrow> item \<in> set items \<Longrightarrow>
   \<exists>r. filter_item re lower options item = Inr r"
  by (induction items arbitrary: acc) (auto split: sum.splits option.splits)

lemma filterTree_loop_throws:
  "\<forall>x \<in> set before. \<exists>r. filter_item re lower options x = Inr r \<Longrightarrow>
   filter_item re lower options item = Inl e \<Longrightarrow>
   filterTree_loop re lower options (before @ item # rest) acc = Inl e"
  by (induction before arbitrary: acc) (auto split: option.splits)

lemma filterTree_passes_all:
  assumes "filterTree re lower items options = Inr out"
  shows "out = map (make_entry lower) (filter (passes_all re lower options) items)"
proof -
  have out: "out = List.map_filter (kept re lower options) items"
    using filterTree_loop_Inr [of re lower options items "[]" out] assms
    by (simp add: filterTree_def)
  have k: "kept re lower options item =
           (if passes_all re lower options item then Some (make_entry lower item) else None)"
    if "item \<in> set items" for item
  proof -
    from filterTree_loop_items [OF assms [unfolded filterTree_def] that]
    obtain r where r: "filter_item re lower options item = Inr r" by blast
    from filter_item_passes_all [OF r] r show ?thesis by (simp add: kept_def)
  qed
  have "List.map_filter (kept re lower options) xs =
        map (make_entry lower) (filter (passes_all re lower options) xs)"
    if "set xs \<subseteq> set items" for xs
    using that by (induction xs) (simp_all add: List.map_filter_simps k)
  with out show ?thesis by simp
qed

lemma first_decisive_not_Nil: "first_decisive re filePath ps r \<Longrightarrow> ps \<noteq> []"
  by (auto simp: first_decisive_def)

lemma include_stage_miss:
  "opt_include options = Some inc \<Longrightarrow> inc \<noteq> [] \<Longrightarrow>
   none_matches re (item_path item) inc \<Longrightarrow> include_stage re options item = Inr False"
  by (simp add: include_stage_def some_matches_none)

lemma include_stage_first:
  "opt_include options = Some inc \<Longrightarrow> first_decisive re (item_path item) inc r \<Longrightarrow>
   include_stage re options item = r"
  using first_decisive_not_Nil [of re "item_path item" inc r]
  by (simp add: include_stage_def some_matches_first)

lemma exclude_stage_first:
  "opt_exclude options = Some exc \<Longrightarrow> first_decisive re (item_path item) exc r \<Longrightarrow>
   exclude_stage re options item = r"
  using first_decisive_not_Nil [of re "item_path item" exc r]
  by (simp add: exclude_stage_def some_matches_first)

lemma filterTree_include_exclude:
  assumes inc: "opt_include options = Some inc" "p \<in> set inc"
               "matchesPattern re (item_path item) p = Inr True"
      and exc: "opt_exclude options = Some exc" "q \<in> set exc"
               "matchesPattern re (item_path item) q = Inr True"
  shows "(\<forall>out. filterTree re lower items options = Inr out \<longrightarrow>
            item_path item \<notin> entry_path ` set out) \<and>
         (list_all (pattern_ok re) (inc @ exc) \<longrightarrow>
            (\<exists>out. filterTree re lower items options = Inr out) \<and>
            (type_skips options item \<or> include_stage re options item = Inr True) \<and>
            filter_item re lower options item = Inr None)"
proof (intro conjI allI impI)
  fix out
  assume out: "filterTree re lower items options = Inr out"
  show "item_path item \<notin> entry_path ` set out"
  proof
    assume "item_path item \<in> entry_path ` set out"
    then obtain e where e: "e \<in> set out" "entry_path e = item_path item" by auto
    from out have "out = List.map_filter (kept re lower options) items"
      using filterTree_loop_Inr [of re lower options items "[]" out] by (simp add: filterTree_def)
    with e(1) obtain it where it: "it \<in> set items" "kept re lower options it = Some e"
      by (auto simp: List.map_filter_def)
    then have fi: "filter_item re lower options it = Inr (Some e)"
      by (auto simp: kept_def split: sum.splits)
    then have "item_path it = item_path item"
      using filter_item_path e(2) by fastforce
    with exc(3) have "matchesPattern re (item_path it) q = Inr True" by simp
    from filter_item_excluded [OF exc(1,2) this fi] show False .
  qed
next
  assume okp: "list_all (pattern_ok re) (inc @ exc)"
  then have oi: "list_all (pattern_ok re) (case opt_include options of None \<Rightarrow> [] | Some ps \<Rightarrow> ps)"
    and oe: "list_all (pattern_ok re) (case opt_exclude options of None \<Rightarrow> [] | Some ps \<Rightarrow> ps)"
    using inc(1) exc(1) by simp_all
  have "list_all (\<lambda>item. \<forall>e. filter_item re lower options item \<noteq> Inl e) items"
    using filter_item_total [OF oi oe] by (simp add: list_all_iff)
  then have "\<And>e. filterTree re lower items options \<noteq> Inl e"
    using filterTree_loop_total by (simp add: filterTree_def)
  then show "\<exists>out. filterTree re lower items options = Inr out"
    by (cases "filterTree re lower items options") auto
  have "\<And>e. filter_item re lower options item \<noteq> Inl e"
    using filter_item_total [OF oi oe] by blast
  then obtain r where r: "filter_item re lower options item = Inr r"
    by (cases "filter_item re lower options item") auto
  have "r = None"
  proof (cases r)
    case (Some e)
    with r filter_item_excluded [OF exc] show ?thesis by blast
  qed simp
  with r show "filter_item re lower options item = Inr None" by simp
  have nei: "length inc > 0" using inc(2) by (cases inc) auto
  have "\<And>e. some_matches re (item_path item) inc \<noteq> Inl e"
    using okp some_matches_ok [of re inc] by auto
  then obtain a where a: "some_matches re (item_path item) inc = Inr a"
    by (cases "some_matches re (item_path item) inc") auto
  from some_matches_hit [OF a inc(2,3)] a
  show "type_skips options item \<or> include_stage re options item = Inr True"
    using inc(1) nei by (simp add: include_stage_def)
qed


lemma basename_src_test: "basename ''src/test.ts'' = ''test.ts''"
  by (simp add: basename_def js_slice_def)

lemma basename_src_a: "basename ''src/a.ts'' = ''a.ts''"
  by (simp add: basename_def js_slice_def)

lemma w9_matches:
  "matchesPattern no_regexp ''src/test.ts'' ''src'' = Inr True"
  "matchesPattern no_regexp ''src/test.ts'' ''test'' = Inr True"
  "matchesPattern no_regexp ''src/a.ts'' ''src'' = Inr True"
  "matchesPattern no_regexp ''src/a.ts'' ''test'' = Inr False"
  "matchesPattern no_regexp ''src/a.ts'' ''docs'' = Inr False"
  by (simp_all add: matchesPattern_def basename_src_a)

lemma w9_throws:
  "matchesPattern no_regexp filePath ''*.md'' = Inl (RegExpSyntaxError (pattern_source ''*.md''))"
  "matchesPattern no_regexp filePath ''*.ts'' = Inl (RegExpSyntaxError (pattern_source ''*.ts''))"
  by (simp_all add: matchesPattern_def no_regexp_def)

lemma first_decisive_head:
  "matchesPattern re filePath p = r \<Longrightarrow> r \<noteq> Inr False \<Longrightarrow>
   first_decisive re filePath (p # ps) r"
  unfolding first_decisive_def none_matches_def
  by (intro exI [of _ "[]"] exI [of _ p] exI [of _ ps]) simp

lemma w9_paths:
  "item_path a_ts = ''src/a.ts''" "item_type a_ts = Blob" "item_size a_ts = Some 7"
  "item_path test_ts = ''src/test.ts''" "item_type test_ts = Blob"
  "item_size test_ts = Some 5"
  by (simp_all add: a_ts_def test_ts_def blob_item_def)

lemma w9_fields:
  "opt_type w9_dirs_only = Some TypeDir" "opt_include w9_dirs_only = Some [''*.ts'']"
  "opt_type w9_include_miss = None" "opt_include w9_include_miss = Some [''docs'']"
  "opt_exclude w9_include_miss = Some [''*.ts'']"
  "opt_type w9_include_throws = None" "opt_include w9_include_throws = Some [''*.md'']"
  "opt_exclude w9_include_throws = Some [''src'']"
  "opt_type w9_exclude_throws = None" "opt_include w9_exclude_throws = Some [''src'']"
  "opt_exclude w9_exclude_throws = Some [''*.md'']"
  "opt_extensions w9_exclude_throws = Some [''md'']"
  "opt_type w9_options = None" "opt_include w9_options = Some [''src'']"
  "opt_exclude w9_options = Some [''test'']" "opt_extensions w9_options = None"
  "opt_maxFileSize w9_options = None"
  by (simp_all add: w9_dirs_only_def w9_include_miss_def w9_include_throws_def
      w9_exclude_throws_def w9_options_def no_filter_def)

lemma w9_no_type_skip:
  "opt_type options = None \<Longrightarrow> \<not> type_skips options item"
  by (simp add: type_skips_def)

lemma w9_include_passes:
  "include_passes no_regexp w9_options a_ts" "include_passes no_regexp w9_options test_ts"
  "include_passes no_regexp w9_exclude_throws a_ts"
  by (simp_all add: include_passes_def w9_fields w9_paths first_decisive_head w9_matches)

text \<open>
  C9. One turn of the loop of filterTree decides in the fixed order type, include,
  exclude, extension and size, and the order shows in what the turn returns. An item
  that the type filter drops is skipped whatever the patterns are, also patterns that
  throw. Past the type filter, an item that no include pattern matches is skipped with
  no exclude pattern evaluated, and an include pattern that throws ends the call with
  its exception. For an item that the include patterns admit the exclude patterns are
  still evaluated: a match skips the item whatever its extension and size, and an
  exclude pattern that throws ends the call also where the extension or size filter
  would have dropped the item. An item that no exclude pattern matches is kept exactly
  when the extension and size filters let it through. The first turn that throws ends
  the call with its exception. The output of a call that returns is, in the order of
  the input, the entries of exactly the items that pass every stage.
  In particular, if an item's path matches an include pattern \<open>p\<close> and an exclude pattern
  \<open>q\<close>, no entry with that path is in the output of a call that returns; and when every
  pattern compiles, the call returns and the item's turn ends in \<open>continue\<close>.
\<close>

theorem C9_stages_in_order:
  "(type_skips options item \<longrightarrow> filter_item re lower options item = Inr None) \<and>
   (\<not> type_skips options item \<and> opt_include options = Some inc \<and> inc \<noteq> [] \<and>
    none_matches re (item_path item) inc \<longrightarrow>
      filter_item re lower options item = Inr None) \<and>
   (\<not> type_skips options item \<and> opt_include options = Some inc \<and>
    first_decisive re (item_path item) inc (Inl e) \<longrightarrow>
      filter_item re lower options item = Inl e) \<and>
   (\<not> type_skips options item \<and> include_passes re options item \<and>
    opt_exclude options = Some exc \<and> first_decisive re (item_path item) exc (Inr True) \<longrightarrow>
      filter_item re lower options item = Inr None) \<and>
   (\<not> type_skips options item \<and> include_passes re options item \<and>
    opt_exclude options = Some exc \<and> first_decisive re (item_path item) exc (Inl e) \<longrightarrow>
      filter_item re lower options item = Inl e) \<and>
   (\<not> type_skips options item \<and> include_passes re options item \<and>
    exclude_clear re options item \<longrightarrow>
      filter_item re lower options item =
        (if extension_skips lower options item \<or> size_skips options item then Inr None
         else Inr (Some (make_entry lower item)))) \<and>
   ((\<forall>x \<in> set before. \<exists>r. filter_item re lower options x = Inr r) \<and>
    filter_item re lower options item = Inl e \<longrightarrow>
      filterTree re lower (before @ item # rest) options = Inl e) \<and>
   (filterTree re lower items options = Inr out \<longrightarrow>
      out = map (make_entry lower) (filter (passes_all re lower options) items)) \<and>
   (opt_include options = Some inc \<and> p \<in> set inc \<and>
    matchesPattern re (item_path item) p = Inr True \<and>
    opt_exclude options = Some exc \<and> q \<in> set exc \<and>
    matchesPattern re (item_path item) q = Inr True \<longrightarrow>
      (\<forall>out. filterTree re lower items options = Inr out \<longrightarrow>
         item_path item \<notin> entry_path ` set out) \<and>
      (list_all (pattern_ok re) (inc @ exc) \<longrightarrow>
         (\<exists>out. filterTree re lower items options = Inr out) \<and>
         (type_skips options item \<or> include_stage re options item = Inr True) \<and>
         filter_item re lower options item = Inr None))"
proof (intro conjI, goal_cases)
  case 1
  show ?case by (simp add: filter_item_def)
next
  case 2
  show ?case by (auto simp: filter_item_def include_stage_miss)
next
  case 3
  show ?case by (auto simp: filter_item_def include_stage_first)
next
  case 4
  show ?case by (auto simp: filter_item_def include_passes_iff exclude_stage_first)
next
  case 5
  show ?case by (auto simp: filter_item_def include_passes_iff exclude_stage_first)
next
  case 6
  show ?case by (simp add: filter_item_def include_passes_iff exclude_clear_iff)
next
  case 7
  show ?case by (simp add: filterTree_def filterTree_loop_throws)
next
  case 8
  show ?case by (simp add: filterTree_passes_all)
next
  case 9
  show ?case using filterTree_include_exclude [of options inc p re item exc q lower items]
    by blast
qed

theorem C9_witness:
  "type_skips w9_dirs_only a_ts \<and>
   matchesPattern no_regexp (item_path a_ts) ''*.ts'' =
     Inl (RegExpSyntaxError (pattern_source ''*.ts'')) \<and>
   filter_item no_regexp ascii_lower w9_dirs_only a_ts = Inr None \<and>
   none_matches no_regexp (item_path a_ts) [''docs''] \<and>
   filter_item no_regexp ascii_lower w9_include_miss a_ts = Inr None \<and>
   matchesPattern no_regexp (item_path a_ts) ''src'' = Inr True \<and>
   filter_item no_regexp ascii_lower w9_include_throws a_ts =
     Inl (RegExpSyntaxError (pattern_source ''*.md'')) \<and>
   filterTree no_regexp ascii_lower [a_ts, test_ts] w9_include_throws =
     Inl (RegExpSyntaxError (pattern_source ''*.md'')) \<and>
   filter_item no_regexp ascii_lower w9_options test_ts = Inr None \<and>
   extension_skips ascii_lower w9_exclude_throws a_ts \<and>
   filter_item no_regexp ascii_lower w9_exclude_throws a_ts =
     Inl (RegExpSyntaxError (pattern_source ''*.md'')) \<and>
   filter_item no_regexp ascii_lower w9_options a_ts =
     Inr (Some (make_entry ascii_lower a_ts)) \<and>
   filterTree no_regexp ascii_lower [test_ts, a_ts] w9_options =
     Inr [make_entry ascii_lower a_ts] \<and>
   item_path test_ts \<notin> entry_path ` set [make_entry ascii_lower a_ts]"
proof -
  note t = C9_stages_in_order [where re = no_regexp and lower = ascii_lower]
  have ts: "type_skips w9_dirs_only a_ts"
    by (simp add: type_skips_def w9_fields w9_paths)
  have w1: "filter_item no_regexp ascii_lower w9_dirs_only a_ts = Inr None"
    using t [where options = w9_dirs_only and item = a_ts, THEN conjunct1] ts by simp
  have nm: "none_matches no_regexp (item_path a_ts) [''docs'']"
    by (simp add: none_matches_def w9_paths w9_matches)
  have w2: "filter_item no_regexp ascii_lower w9_include_miss a_ts = Inr None"
    using t [where options = w9_include_miss and item = a_ts and inc = "[''docs'']",
        THEN conjunct2, THEN conjunct1] nm
    by (simp add: w9_no_type_skip w9_fields)
  have w3: "filter_item no_regexp ascii_lower w9_include_throws a_ts =
              Inl (RegExpSyntaxError (pattern_source ''*.md''))"
    using t [where options = w9_include_throws and item = a_ts and inc = "[''*.md'']"
        and e = "RegExpSyntaxError (pattern_source ''*.md'')",
        THEN conjunct2, THEN conjunct2, THEN conjunct1]
    by (simp add: w9_no_type_skip w9_fields first_decisive_head w9_throws)
  have w4: "filter_item no_regexp ascii_lower w9_options test_ts = Inr None"
    using t [where options = w9_options and item = test_ts and exc = "[''test'']",
        THEN conjunct2, THEN conjunct2, THEN conjunct2, THEN conjunct1]
    by (simp add: w9_no_type_skip w9_fields w9_include_passes first_decisive_head w9_matches
        w9_paths)
  have es: "extension_skips ascii_lower w9_exclude_throws a_ts"
    by code_simp
  have w5: "filter_item no_regexp ascii_lower w9_exclude_throws a_ts =
              Inl (RegExpSyntaxError (pattern_source ''*.md''))"
    using t [where options = w9_exclude_throws and item = a_ts and exc = "[''*.md'']"
        and e = "RegExpSyntaxError (pattern_source ''*.md'')",
        THEN conjunct2, THEN conjunct2, THEN conjunct2, THEN conjunct2, THEN conjunct1]
    by (simp add: w9_no_type_skip w9_fields w9_include_passes first_decisive_head w9_throws)
  have ec: "exclude_clear no_regexp w9_options a_ts"
    by (simp add: exclude_clear_def none_matches_def w9_fields w9_paths w9_matches)
  have nsk: "\<not> extension_skips ascii_lower w9_options item" "\<not> size_skips w9_options item"
    for item
    by (simp_all add: extension_skips_def size_skips_def w9_fields)
  have w6: "filter_item no_regexp ascii_lower w9_options a_ts =
              Inr (Some (make_entry ascii_lower a_ts))"
    using t [where options = w9_options and item = a_ts,
        THEN conjunct2, THEN conjunct2, THEN conjunct2, THEN conjunct2, THEN conjunct2,
        THEN conjunct1]
    by (simp add: w9_no_type_skip w9_fields w9_include_passes ec nsk)
  have nec: "\<not> exclude_clear no_regexp w9_options test_ts"
    by (simp add: exclude_clear_def none_matches_def w9_fields w9_paths w9_matches)
  have pa: "passes_all no_regexp ascii_lower w9_options a_ts"
    "\<not> passes_all no_regexp ascii_lower w9_options test_ts"
    by (simp_all add: passes_all_def w9_no_type_skip w9_fields w9_include_passes ec nec nsk)
  have okp: "list_all (pattern_ok no_regexp) ([''src''] @ [''test''])"
    by (simp add: pattern_ok_def)
  have w3c: "filterTree no_regexp ascii_lower [a_ts, test_ts] w9_include_throws =
               Inl (RegExpSyntaxError (pattern_source ''*.md''))"
    using t [where options = w9_include_throws and item = a_ts and before = "[]"
        and rest = "[test_ts]" and e = "RegExpSyntaxError (pattern_source ''*.md'')",
        THEN conjunct2, THEN conjunct2, THEN conjunct2, THEN conjunct2, THEN conjunct2,
        THEN conjunct2, THEN conjunct1] w3
    by simp
  note l7 = t [where options = w9_options and items = "[test_ts, a_ts]",
        THEN conjunct2, THEN conjunct2, THEN conjunct2, THEN conjunct2, THEN conjunct2,
        THEN conjunct2, THEN conjunct2, THEN conjunct1, THEN mp]
  note l8 = t [where options = w9_options and item = test_ts and inc = "[''src'']"
        and exc = "[''test'']" and p = "''src''" and q = "''test''"
        and items = "[test_ts, a_ts]",
        THEN conjunct2, THEN conjunct2, THEN conjunct2, THEN conjunct2, THEN conjunct2,
        THEN conjunct2, THEN conjunct2, THEN conjunct2]
  from l8 okp
  obtain out where out: "filterTree no_regexp ascii_lower [test_ts, a_ts] w9_options = Inr out"
    by (auto simp: w9_fields w9_paths w9_matches)
  from l7 [OF out]
  have "out = [make_entry ascii_lower a_ts]"
    by (simp add: pa)
  with out have w7: "filterTree no_regexp ascii_lower [test_ts, a_ts] w9_options =
      Inr [make_entry ascii_lower a_ts]"
    by simp
  have w8: "item_path test_ts \<notin> entry_path ` set [make_entry ascii_lower a_ts]"
    using l8 w7 by (auto simp: w9_fields w9_paths w9_matches)
  show ?thesis
    using ts w1 nm w2 w3 w3c w4 es w5 w6 w7 w8
    by (simp add: w9_paths w9_matches w9_throws)
qed

section \<open>Properties of the Result Assembler\<close>

lemma set_insert_by: "set (insert_by cmp x ys) = insert x (set ys)"
  by (induction ys) auto

lemma set_js_sort: "set (js_sort cmp xs) = set xs"
  by (induction xs) (auto simp: js_sort_def set_insert_by)

lemma set_sortEntries: "set (sortEntries lc entries) = set entries"
  by (simp add: sortEntries_def set_js_sort)

lemma wants_content_off: "content_off options \<Longrightarrow> \<not> wants_content options"
  by (auto simp: content_off_def wants_content_def content_of_def split: option.splits)

lemma filter_options_off:
  "content_off options \<Longrightarrow>
   filter_options options =
     \<lparr>opt_extensions = ro_extensions options, opt_exclude = ro_exclude options,
      opt_include = ro_include options, opt_type = ro_type options, opt_maxFileSize = None\<rparr>"
  by (auto simp: content_off_def filter_options_def content_of_def split: option.splits)

lemma content_off_maxFileSize:
  "content_off (options\<lparr>ro_maxFileSize := m\<rparr>) = content_off options"
  by (simp add: content_off_def)

lemma repofetch_off:
  assumes "content_off options"
  shows "repofetch lc re lower decode net repo_id options =
     (case getTree net (new_GitHubClient (ro_token options)) repo_id (branch_of options) of
        (Inl e, client1) \<Rightarrow> Some (Inl e)
      | (Inr (tree, actualBranch), client1) \<Rightarrow>
          (case filterTree re lower (tree_items tree) (filter_options options) of
             Inl e \<Rightarrow> Some (Inl e)
           | Inr filtered \<Rightarrow>
               Some (Inr (result_object repo_id actualBranch tree (sortEntries lc filtered)))))"
  using wants_content_off [OF assms]
  by (simp add: repofetch_def Let_def split: prod.splits sum.splits)

lemma filter_item_passes:
  assumes "\<not> type_skips options item" "include_stage re options item = Inr True"
    "exclude_stage re options item = Inr False" "\<not> extension_skips lower options item"
    "opt_maxFileSize options = None"
  shows "filter_item re lower options item = Inr (Some (make_entry lower item))"
  using assms by (simp add: filter_item_def size_skips_def)

lemma filterTree_keeps:
  assumes "filterTree re lower items options = Inr out" "item \<in> set items"
    "filter_item re lower options item = Inr (Some e)"
  shows "e \<in> set out"
proof -
  have "out = List.map_filter (kept re lower options) items"
    using filterTree_loop_Inr [of re lower options items "[]" out] assms(1)
    by (simp add: filterTree_def)
  moreover have "kept re lower options item = Some e"
    using assms(3) by (simp add: kept_def)
  ultimately show ?thesis
    using assms(2) by (force simp: List.map_filter_def)
qed

text \<open>
  C10. When the content option is false and no object ids are asked for, repofetch hands
  no size bound to the Entry Filter: the options object it builds has no \<open>maxFileSize\<close>,
  the call returns and its result is the same for every value of the \<open>maxFileSize\<close>
  option, and every item of the tree that passes the type, include, exclude and
  extension stages is among the returned files, whatever its size.
\<close>

theorem C10_size_filter_only_with_content:
  assumes off: "content_off options"
  shows "repofetch lc re lower decode net repo_id (options\<lparr>ro_maxFileSize := m\<rparr>) =
           repofetch lc re lower decode net repo_id options \<and>
         opt_maxFileSize (filter_options options) = None \<and>
         (\<exists>res. repofetch lc re lower decode net repo_id options = Some res) \<and>
         (\<forall>r tree b c item.
            repofetch lc re lower decode net repo_id options = Some (Inr r) \<and>
            getTree net (new_GitHubClient (ro_token options)) repo_id (branch_of options) =
              (Inr (tree, b), c) \<and>
            item \<in> set (tree_items tree) \<and>
            \<not> type_skips (filter_options options) item \<and>
            include_stage re (filter_options options) item = Inr True \<and>
            exclude_stage re (filter_options options) item = Inr False \<and>
            \<not> extension_skips lower (filter_options options) item
            \<longrightarrow> make_entry lower item \<in> set (files r))"
proof (intro conjI allI impI)
  have off': "content_off (options\<lparr>ro_maxFileSize := m\<rparr>)"
    using off by (simp add: content_off_maxFileSize)
  have fo: "filter_options (options\<lparr>ro_maxFileSize := m\<rparr>) = filter_options options"
    by (simp add: filter_options_off [OF off] filter_options_off [OF off'])
  show "repofetch lc re lower decode net repo_id (options\<lparr>ro_maxFileSize := m\<rparr>) =
          repofetch lc re lower decode net repo_id options"
    unfolding repofetch_off [OF off] repofetch_off [OF off'] fo
    by (simp add: branch_of_def)
  show none: "opt_maxFileSize (filter_options options) = None"
    by (simp add: filter_options_off [OF off])
  show "\<exists>res. repofetch lc re lower decode net repo_id options = Some res"
    by (simp add: repofetch_off [OF off] split: prod.splits sum.splits)
  fix r tree b c item
  assume h: "repofetch lc re lower decode net repo_id options = Some (Inr r) \<and>
            getTree net (new_GitHubClient (ro_token options)) repo_id (branch_of options) =
              (Inr (tree, b), c) \<and>
            item \<in> set (tree_items tree) \<and>
            \<not> type_skips (filter_options options) item \<and>
            include_stage re (filter_options options) item = Inr True \<and>
            exclude_stage re (filter_options options) item = Inr False \<and>
            \<not> extension_skips lower (filter_options options) item"
  then obtain filtered where f: "filterTree re lower (tree_items tree) (filter_options options) = Inr filtered"
    and r: "r = result_object repo_id b tree (sortEntries lc filtered)"
    by (auto simp: repofetch_off [OF off] split: sum.splits)
  have "filter_item re lower (filter_options options) item = Inr (Some (make_entry lower item))"
    using h none by (intro filter_item_passes) simp_all
  from filterTree_keeps [OF f _ this] h have "make_entry lower item \<in> set filtered" by simp
  then show "make_entry lower item \<in> set (files r)"
    by (simp add: r result_object_def set_sortEntries)
qed


lemma demo_getTree:
  "getTree (demo_net items) (new_GitHubClient tok) repo_id b =
     (Inr (\<lparr>tree_sha = ''t1'', tree_items = items, tree_truncated = False\<rparr>, b),
      \<lparr>token = tok, rateLimit_field = Some demo_rate,
       requests = [GetCommit repo_id b, GetTree repo_id ''t1'']\<rparr>)"
  by (simp add: getTree_def getTree_finish_def do_fetch_def updateRateLimit_def ok_def
      demo_net_def demo_response_def new_GitHubClient_def)

lemma demo_filter_options:
  "filter_options demo_options = no_filter"
  by (simp add: filter_options_def demo_options_def no_filter_def content_of_def)

lemma big_item_passes:
  "\<not> type_skips no_filter big_item"
  "include_stage re no_filter big_item = Inr True"
  "exclude_stage re no_filter big_item = Inr False"
  "\<not> extension_skips lower no_filter big_item"
  by (simp_all add: type_skips_def include_stage_def exclude_stage_def extension_skips_def
      no_filter_def)

lemma big_item_size: "\<not> size_skips no_filter big_item"
  by (simp add: size_skips_def no_filter_def)

lemma demo_filterTree_big:
  "filterTree re lower [big_item] no_filter = Inr [make_entry lower big_item]"
  by (simp add: filterTree_def filter_item_def big_item_passes big_item_size)

theorem C10_witness:
  "content_off demo_options \<and>
   ro_maxFileSize demo_options = Some 10 \<and>
   item_size big_item = Some 5000000 \<and>
   (\<exists>r. repofetch (\<lambda>a b. 0) no_regexp ascii_lower id (demo_net [big_item]) ''octo/demo''
          demo_options = Some (Inr r) \<and>
        make_entry ascii_lower big_item \<in> set (files r))"
proof -
  have off: "content_off demo_options"
    by (simp add: content_off_def demo_options_def)
  have b: "branch_of demo_options = ''main''"
    by (simp add: branch_of_def demo_options_def)
  have run: "repofetch (\<lambda>a b. 0) no_regexp ascii_lower id (demo_net [big_item]) ''octo/demo''
       demo_options =
     Some (Inr (result_object ''octo/demo'' ''main''
       \<lparr>tree_sha = ''t1'', tree_items = [big_item], tree_truncated = False\<rparr>
       (sortEntries (\<lambda>a b. 0) [make_entry ascii_lower big_item])))"
    by (simp add: repofetch_off [OF off] demo_getTree b demo_filter_options
        demo_filterTree_big)
  from C10_size_filter_only_with_content [OF off, where lc = "\<lambda>a b. 0" and re = no_regexp
      and lower = ascii_lower
      and decode = id and net = "demo_net [big_item]" and repo_id = "''octo/demo''"
      and m = "Some 1"]
  have "make_entry ascii_lower big_item \<in> set (files (result_object ''octo/demo'' ''main''
       \<lparr>tree_sha = ''t1'', tree_items = [big_item], tree_truncated = False\<rparr>
       (sortEntries (\<lambda>a b. 0) [make_entry ascii_lower big_item])))"
    using run demo_getTree [of "[big_item]" "ro_token demo_options" "''octo/demo''" "''main''"]
      big_item_passes
    by (simp add: b demo_filter_options)
  with run off show ?thesis
    by (simp add: demo_options_def big_item_def blob_item_def)
qed

text \<open>
  C2. The specification asks that the result of a successful call carry the client's latest
  rate-limit snapshot and its authentication flag. The object that repofetch returns has
  neither property. At this input every response carries rate-limit headers and a token
  is given: when getTree has returned, the client holds the snapshot \<open>demo_rate\<close> and is
  authenticated, and both \<open>rateLimit\<close> and \<open>isAuthenticated\<close> of the result are absent.
\<close>

theorem C2_result_lacks_rate_limit:
  "repofetch lc re lower decode (demo_net [big_item]) ''octo/demo'' demo_options =
     Some (Inr (result_object ''octo/demo'' ''main''
       \<lparr>tree_sha = ''t1'', tree_items = [big_item], tree_truncated = False\<rparr>
       [make_entry lower big_item])) \<and>
   rateLimit (result_object ''octo/demo'' ''main''
       \<lparr>tree_sha = ''t1'', tree_items = [big_item], tree_truncated = False\<rparr>
       [make_entry lower big_item]) = None \<and>
   isAuthenticated (result_object ''octo/demo'' ''main''
       \<lparr>tree_sha = ''t1'', tree_items = [big_item], tree_truncated = False\<rparr>
       [make_entry lower big_item]) = None \<and>
   client_rateLimit (snd (getTree (demo_net [big_item])
       (new_GitHubClient (ro_token demo_options)) ''octo/demo'' (branch_of demo_options))) =
     Some demo_rate \<and>
   client_isAuthenticated (snd (getTree (demo_net [big_item])
       (new_GitHubClient (ro_token demo_options)) ''octo/demo'' (branch_of demo_options)))"
proof -
  have off: "content_off demo_options"
    by (simp add: content_off_def demo_options_def)
  have b: "branch_of demo_options = ''main''"
    by (simp add: branch_of_def demo_options_def)
  have s: "sortEntries lc [make_entry lower big_item] = [make_entry lower big_item]"
    by (simp add: sortEntries_def js_sort_def)
  have run: "repofetch lc re lower decode (demo_net [big_item]) ''octo/demo'' demo_options =
     Some (Inr (result_object ''octo/demo'' ''main''
       \<lparr>tree_sha = ''t1'', tree_items = [big_item], tree_truncated = False\<rparr>
       [make_entry lower big_item]))"
    by (simp add: repofetch_off [OF off] demo_getTree b demo_filter_options
        demo_filterTree_big s)
  have t: "ro_token demo_options = Some ''ghp_token''"
    by (simp add: demo_options_def)
  show ?thesis
    by (simp add: run demo_getTree b result_object_def client_rateLimit_def
        client_isAuthenticated_def t)
qed

section \<open>Properties of the Remote Tree Client\<close>

text \<open>
  C7. Let the first commit lookup of getTree be answered with status 404 or 422, and the
  repository lookup that follows be answered by \<open>res2\<close>. The client then asks for the
  repository's default branch and looks the commit up once more, for that branch. If
  that lookup and the tree request succeed, getTree returns the tree with the default
  branch as the resolved branch, after exactly these four requests. If the second
  lookup fails (any status outside 200 to 299, 404 and 422 included, or no answer),
  getTree fails after exactly three requests: there is no third commit lookup. If the
  default branch cannot be resolved, getTree fails after two requests.
\<close>

theorem C7_getTree_fallback_once:
  assumes first: "net (length (requests c)) (GetCommit repo_id branch_name) = Some res1"
      and missing: "status res1 = 404 \<or> status res1 = 422"
      and info: "net (length (requests c) + 1) (GetRepo repo_id) = Some res2"
  shows "(ok res2 \<and>
          net (length (requests c) + 2) (GetCommit repo_id (default_branch res2)) = Some res3 \<and>
          ok res3 \<and>
          net (length (requests c) + 3) (GetTree repo_id (commit_tree_sha res3)) = Some res4 \<and>
          ok res4 \<longrightarrow>
            fst (getTree net c repo_id branch_name) = Inr (tree_body res4, default_branch res2) \<and>
            requests (snd (getTree net c repo_id branch_name)) =
              requests c @ [GetCommit repo_id branch_name, GetRepo repo_id,
                            GetCommit repo_id (default_branch res2),
                            GetTree repo_id (commit_tree_sha res3)]) \<and>
         (ok res2 \<and>
          net (length (requests c) + 2) (GetCommit repo_id (default_branch res2)) = Some res3 \<and>
          \<not> ok res3 \<longrightarrow>
            fst (getTree net c repo_id branch_name) =
              Inl (if status res3 = 403 then RateLimitExceeded
                   else CommitFailed (status res3) (statusText res3)) \<and>
            requests (snd (getTree net c repo_id branch_name)) =
              requests c @ [GetCommit repo_id branch_name, GetRepo repo_id,
                            GetCommit repo_id (default_branch res2)]) \<and>
         (ok res2 \<and>
          net (length (requests c) + 2) (GetCommit repo_id (default_branch res2)) = None \<longrightarrow>
            fst (getTree net c repo_id branch_name) = Inl NetworkError \<and>
            requests (snd (getTree net c repo_id branch_name)) =
              requests c @ [GetCommit repo_id branch_name, GetRepo repo_id,
                            GetCommit repo_id (default_branch res2)]) \<and>
         (\<not> ok res2 \<longrightarrow>
            fst (getTree net c repo_id branch_name) =
              Inl (if status res2 = 404 then RepoNotFound repo_id
                   else if status res2 = 403 then RateLimitExceeded
                   else ApiError (status res2) (statusText res2)) \<and>
            requests (snd (getTree net c repo_id branch_name)) =
              requests c @ [GetCommit repo_id branch_name, GetRepo repo_id])"
proof -
  have nok: "\<not> ok res1"
    using missing by (auto simp: ok_def)
  have rq [simp]: "requests (updateRateLimit x r) = requests x" for x r
    by (simp add: updateRateLimit_def split: option.splits)
  have start: "getTree net c repo_id branch_name =
    (case getDefaultBranch net (updateRateLimit (c\<lparr>requests := requests c @ [GetCommit repo_id branch_name]\<rparr>) res1) repo_id of
       (Inl e, c3) \<Rightarrow> (Inl e, c3)
     | (Inr targetBranch, c3) \<Rightarrow>
         (case do_fetch net c3 (GetCommit repo_id targetBranch) of
            (None, c4) \<Rightarrow> (Inl NetworkError, c4)
          | (Some res2, c4) \<Rightarrow>
              getTree_finish net (updateRateLimit c4 res2) repo_id targetBranch res2))"
    using first missing nok by (simp add: getTree_def do_fetch_def Let_def)
  show ?thesis
    unfolding start
    using info
    by (auto simp: getDefaultBranch_def do_fetch_def getTree_finish_def Let_def
        numeral_2_eq_2 numeral_3_eq_3)
qed


theorem C7_witness:
  "fst (getTree (fallback_net ''main'') (new_GitHubClient None) ''octo/demo'' ''doesnotexist'') =
     Inr (\<lparr>tree_sha = ''t1'', tree_items = [], tree_truncated = False\<rparr>, ''main'') \<and>
   requests (snd (getTree (fallback_net ''main'') (new_GitHubClient None) ''octo/demo''
                    ''doesnotexist'')) =
     [GetCommit ''octo/demo'' ''doesnotexist'', GetRepo ''octo/demo'',
      GetCommit ''octo/demo'' ''main'', GetTree ''octo/demo'' ''t1''] \<and>
   fst (getTree (fallback_net ''bad'') (new_GitHubClient None) ''octo/demo'' ''doesnotexist'') =
     Inl (CommitFailed 404 ''text'') \<and>
   requests (snd (getTree (fallback_net ''bad'') (new_GitHubClient None) ''octo/demo''
                    ''doesnotexist'')) =
     [GetCommit ''octo/demo'' ''doesnotexist'', GetRepo ''octo/demo'',
      GetCommit ''octo/demo'' ''bad'']"
proof -
  have n: "length (requests (new_GitHubClient None)) = 0"
    by (simp add: new_GitHubClient_def)
  have a: "fallback_net d (length (requests (new_GitHubClient None)))
             (GetCommit ''octo/demo'' ''doesnotexist'') = Some (status_response 404 d)" for d
    by (simp add: n fallback_net_def)
  have m: "status (status_response 404 d) = 404 \<or> status (status_response 404 d) = 422" for d
    by (simp add: status_response_def)
  have b: "fallback_net d (length (requests (new_GitHubClient None)) + 1)
             (GetRepo ''octo/demo'') = Some (status_response 200 d)" for d
    by (simp add: n fallback_net_def)
  have good:
    "ok (status_response 200 ''main'') \<and>
     fallback_net ''main'' (length (requests (new_GitHubClient None)) + 2)
       (GetCommit ''octo/demo'' (default_branch (status_response 200 ''main''))) =
       Some (status_response 200 ''main'') \<and>
     ok (status_response 200 ''main'') \<and>
     fallback_net ''main'' (length (requests (new_GitHubClient None)) + 3)
       (GetTree ''octo/demo'' (commit_tree_sha (status_response 200 ''main''))) =
       Some (status_response 200 ''main'') \<and>
     ok (status_response 200 ''main'')"
    by (simp add: n fallback_net_def status_response_def ok_def)
  have bad:
    "ok (status_response 200 ''bad'') \<and>
     fallback_net ''bad'' (length (requests (new_GitHubClient None)) + 2)
       (GetCommit ''octo/demo'' (default_branch (status_response 200 ''bad''))) =
       Some (status_response 404 ''bad'') \<and>
     \<not> ok (status_response 404 ''bad'')"
    by (simp add: n fallback_net_def status_response_def ok_def)
  note A = C7_getTree_fallback_once [OF a [of "''main''"] m b,
      where ?res3.0 = "status_response 200 ''main''" and ?res4.0 = "status_response 200 ''main''"]
  note B = C7_getTree_fallback_once [OF a [of "''bad''"] m b,
      where ?res3.0 = "status_response 404 ''bad''" and ?res4.0 = "status_response 200 ''bad''"]
  from A good have
    "fst (getTree (fallback_net ''main'') (new_GitHubClient None) ''octo/demo'' ''doesnotexist'') =
       Inr (tree_body (status_response 200 ''main''), default_branch (status_response 200 ''main'')) \<and>
     requests (snd (getTree (fallback_net ''main'') (new_GitHubClient None) ''octo/demo''
                    ''doesnotexist'')) =
       requests (new_GitHubClient None) @
         [GetCommit ''octo/demo'' ''doesnotexist'', GetRepo ''octo/demo'',
          GetCommit ''octo/demo'' (default_branch (status_response 200 ''main'')),
          GetTree ''octo/demo'' (commit_tree_sha (status_response 200 ''main''))]"
    by blast
  moreover from B bad have
    "fst (getTree (fallback_net ''bad'') (new_GitHubClient None) ''octo/demo'' ''doesnotexist'') =
       Inl (if status (status_response 404 ''bad'') = 403 then RateLimitExceeded
            else CommitFailed (status (status_response 404 ''bad''))
                   (statusText (status_response 404 ''bad''))) \<and>
     requests (snd (getTree (fallback_net ''bad'') (new_GitHubClient None) ''octo/demo''
                    ''doesnotexist'')) =
       requests (new_GitHubClient None) @
         [GetCommit ''octo/demo'' ''doesnotexist'', GetRepo ''octo/demo'',
          GetCommit ''octo/demo'' (default_branch (status_response 200 ''bad''))]"
    by blast
  ultimately show ?thesis
    by (simp add: status_response_def new_GitHubClient_def)
qed

section \<open>Properties of the Batched Content Fetcher\<close>

lemma js_slice_window: "js_slice xs (int k) (int k + int m) = take m (drop k xs)"
proof (cases "k \<le> length xs")
  case True
  then have "nat (min (int k + int m) (int (length xs)) - int k) = min m (length xs - k)"
    by (auto simp: min_def)
  moreover have "take (min m (length xs - k)) (drop k xs) = take m (drop k xs)"
    by (simp add: min_def)
  ultimately show ?thesis
    using True by (simp add: js_slice_def min_absorb1 Let_def)
next
  case False
  then show ?thesis by (simp add: js_slice_def Let_def)
qed

lemma consecutive_groups_step:
  "0 < n \<Longrightarrow> xs \<noteq> [] \<Longrightarrow>
   consecutive_groups n xs = take n xs # consecutive_groups n (drop n xs)"
  by (simp add: consecutive_groups.simps [of n xs])

lemma consecutive_groups_Nil [simp]: "consecutive_groups n [] = []"
  by (simp add: consecutive_groups.simps)

lemma fetch_loop_closed:
  assumes "1 \<le> n"
  shows "fetch_loop fetch obs fs n (int k) st =
     Some (foldl (run_batch fetch obs (length fs)) st
             (consecutive_groups (nat n) (drop k fs)))"
proof (induction "length fs - k" arbitrary: k st rule: less_induct)
  case less
  show ?case
  proof (cases "k < length fs")
    case True
    have n: "int (nat n) = n" "0 < nat n" using assms by simp_all
    have w: "js_slice fs (int k) (int k + n) = take (nat n) (drop k fs)"
      using js_slice_window [of fs k "nat n"] n by simp
    have nxt: "int k + n = int (k + nat n)" using n by simp
    have w': "js_slice fs (int k) (int (k + nat n)) = take (nat n) (drop k fs)"
      using w by (simp only: nxt)
    have dec: "length fs - (k + nat n) < length fs - k" using True n by simp
    have ne: "drop k fs \<noteq> []" using True by simp
    have "fetch_loop fetch obs fs n (int k) st =
          fetch_loop fetch obs fs n (int k + n)
            (run_batch fetch obs (length fs) st (js_slice fs (int k) (int k + n)))"
      using True by (subst fetch_loop.simps) simp
    also have "\<dots> = fetch_loop fetch obs fs n (int (k + nat n))
            (run_batch fetch obs (length fs) st (take (nat n) (drop k fs)))"
      by (simp only: nxt w')
    also have "\<dots> = Some (foldl (run_batch fetch obs (length fs))
                 (run_batch fetch obs (length fs) st (take (nat n) (drop k fs)))
                 (consecutive_groups (nat n) (drop (k + nat n) fs)))"
      by (rule less [OF dec])
    also have "\<dots> = Some (foldl (run_batch fetch obs (length fs)) st
                 (consecutive_groups (nat n) (drop k fs)))"
      by (simp add: consecutive_groups_step [OF n(2) ne] add.commute)
    finally show ?thesis .
  next
    case False
    then show ?thesis
      by (subst fetch_loop.simps) simp
  qed
qed

lemma concat_consecutive_groups: "0 < n \<Longrightarrow> concat (consecutive_groups n xs) = xs"
proof (induction n xs rule: consecutive_groups.induct)
  case (1 n xs)
  show ?case
  proof (cases "xs = []")
    case True
    then show ?thesis by simp
  next
    case False
    with 1 show ?thesis
      by (simp add: consecutive_groups_step)
  qed
qed



lemma settle_fields:
  "completed (settle obs T st r) = completed st + 1"
  "results (settle obs T st r) =
     (case snd r of None \<Rightarrow> results st | Some text \<Rightarrow> (results st)(fst r \<mapsto> text))"
  "progress (settle obs T st r) = progress st @ (if obs then [(completed st + 1, T)] else [])"
  "issued (settle obs T st r) = issued st"
  "batches (settle obs T st r) = batches st"
  by (simp_all add: settle_def Let_def split: option.splits)

lemma foldl_settle_completed:
  "completed (foldl (settle obs T) st rs) = completed st + length rs"
  by (induction rs arbitrary: st) (simp_all add: settle_fields)

lemma foldl_settle_results:
  "results (foldl (settle obs T) st rs) = record_results (results st) rs"
  by (induction rs arbitrary: st) (simp_all add: settle_fields)

lemma foldl_settle_issued: "issued (foldl (settle obs T) st rs) = issued st"
  by (induction rs arbitrary: st) (simp_all add: settle_fields)

lemma foldl_settle_batches: "batches (foldl (settle obs T) st rs) = batches st"
  by (induction rs arbitrary: st) (simp_all add: settle_fields)

lemma foldl_settle_progress:
  "progress (foldl (settle obs T) st rs) =
     progress st @
     (if obs then map (\<lambda>j. (j, T)) [completed st + 1 ..< completed st + length rs + 1] else [])"
proof (induction rs arbitrary: st)
  case Nil
  then show ?case by simp
next
  case (Cons r rs)
  have "[completed st + 1 ..< completed st + length (r # rs) + 1] =
        (completed st + 1) # [completed st + 1 + 1 ..< completed st + 1 + length rs + 1]"
    by (subst upt_rec) simp
  then show ?case
    by (simp add: Cons.IH settle_fields)
qed

lemma length_outcomes [simp]: "length (outcomes fetch k es) = length es"
  by (simp add: outcomes_def)

lemma run_batch_fields:
  "completed (run_batch fetch obs T st b) = completed st + length b"
  "results (run_batch fetch obs T st b) =
     record_results (results st) (outcomes fetch (issued st) b)"
  "progress (run_batch fetch obs T st b) =
     progress st @
     (if obs then map (\<lambda>j. (j, T)) [completed st + 1 ..< completed st + length b + 1] else [])"
  "issued (run_batch fetch obs T st b) = issued st + length b"
  "batches (run_batch fetch obs T st b) = batches st @ [(completed st, b)]"
  by (simp_all add: run_batch_def Let_def foldl_settle_completed foldl_settle_results
      foldl_settle_progress foldl_settle_issued foldl_settle_batches
      outcomes_def [symmetric])

lemma record_results_append:
  "record_results m (a @ b) = record_results (record_results m a) b"
  by (induction a arbitrary: m) simp_all

lemma outcomes_append:
  "outcomes fetch k (a @ b) = outcomes fetch k a @ outcomes fetch (k + length a) b"
proof -
  have "[k ..< k + (length a + length b)] =
        [k ..< k + length a] @ [k + length a ..< k + length a + length b]"
    using upt_add_eq_append [of k "k + length a" "length b"] by (simp add: add.assoc)
  then show ?thesis
    by (simp add: outcomes_def)
qed

lemma upt_split:
  "[c + 1 ..< c + (m + n) + 1] = [c + 1 ..< c + m + 1] @ [c + m + 1 ..< c + m + n + 1]"
  for c m n :: nat
  using upt_add_eq_append [of "c + 1" "c + m + 1" n] by (simp add: ac_simps)

lemma groups_completed:
  "completed (foldl (run_batch fetch obs T) st gs) = completed st + length (concat gs)"
  by (induction gs arbitrary: st) (simp_all add: run_batch_fields)

lemma groups_issued:
  "issued (foldl (run_batch fetch obs T) st gs) = issued st + length (concat gs)"
  by (induction gs arbitrary: st) (simp_all add: run_batch_fields)

lemma groups_results:
  "results (foldl (run_batch fetch obs T) st gs) =
     record_results (results st) (outcomes fetch (issued st) (concat gs))"
  by (induction gs arbitrary: st)
     (simp_all add: run_batch_fields outcomes_append record_results_append outcomes_def [of _ _ "[]"])

lemma groups_batches:
  "batches (foldl (run_batch fetch obs T) st gs) = batches st @ group_starts (completed st) gs"
  by (induction gs arbitrary: st) (simp_all add: run_batch_fields)

lemma groups_progress:
  "progress (foldl (run_batch fetch obs T) st gs) =
     progress st @
     (if obs then map (\<lambda>j. (j, T)) [completed st + 1 ..< completed st + length (concat gs) + 1]
      else [])"
proof (induction gs arbitrary: st)
  case Nil
  then show ?case by simp
next
  case (Cons g gs)
  have "[completed st + 1 ..< completed st + (length g + length (concat gs)) + 1] =
        [completed st + 1 ..< completed st + length g + 1] @
        [completed st + length g + 1 ..< completed st + length g + length (concat gs) + 1]"
    by (rule upt_split)
  then show ?case
    by (simp add: Cons.IH run_batch_fields)
qed


lemma map_snd_group_starts [simp]: "map snd (group_starts c gs) = gs"
  by (induction gs arbitrary: c) simp_all

lemma length_group_starts [simp]: "length (group_starts c gs) = length gs"
  by (induction gs arbitrary: c) simp_all


lemma merge_content_empty [simp]: "merge_content Map.empty = (\<lambda>e. e)"
  by (rule ext) (simp add: merge_content_def)

text \<open>
  With a concurrency of 0 the loop does not advance: a call with a qualifying file never
  returns. This is why the properties below ask for a concurrency of at least 1.
\<close>

lemma fetch_loop_zero_never_returns:
  assumes "fetch_loop fetch obs fs n i st = Some r"
  shows "\<not> (n = 0 \<and> i < int (length fs))"
  using assms
proof (induction rule: fetch_loop.raw_induct [rotated 1, consumes 1])
  case (1 fetch_loop' fetch obs fs n i st r)
  show ?case
  proof
    assume z: "n = 0 \<and> i < int (length fs)"
    with 1(2) have "fetch_loop' fetch obs fs n (i + n)
        (run_batch fetch obs (length fs) st (js_slice fs i (i + n))) = Some r"
      by simp
    from 1(1) [OF this] z show False by simp
  qed
qed

lemma fetchContent_zero_never_returns:
  assumes "fc_concurrency options = Some 0" and "filesToFetch_of entries options \<noteq> []"
  shows "fetchContent fetch entries options = None"
proof -
  have "fetch_loop fetch (fc_onProgress options) (filesToFetch_of entries options) 0 0 fetch_init
          = None"
  proof (cases "fetch_loop fetch (fc_onProgress options) (filesToFetch_of entries options) 0 0
                  fetch_init")
    case (Some r)
    from fetch_loop_zero_never_returns [OF this] assms(2) show ?thesis by simp
  qed simp
  then show ?thesis
    using assms by (simp add: fetchContent_def concurrency_value_def Let_def)
qed

text \<open>The run of fetchContent in closed form, for a concurrency of at least 1.\<close>

lemma fetchContent_run:
  assumes "1 \<le> concurrency_value options"
  shows "\<exists>st. fetchContent fetch entries options =
           Some (map (merge_content
                        (record_results Map.empty
                           (outcomes fetch 0 (filesToFetch_of entries options)))) entries, st) \<and>
         completed st = length (filesToFetch_of entries options) \<and>
         progress st =
           (if fc_onProgress options
            then map (\<lambda>j. (j, length (filesToFetch_of entries options)))
                   [1 ..< length (filesToFetch_of entries options) + 1]
            else []) \<and>
         batches st =
           group_starts 0 (consecutive_groups (nat (concurrency_value options))
                             (filesToFetch_of entries options))"
proof (cases "filesToFetch_of entries options = []")
  case True
  then show ?thesis
    by (simp add: fetchContent_def Let_def fetch_init_def outcomes_def)
next
  case False
  let ?fs = "filesToFetch_of entries options"
  let ?n = "concurrency_value options"
  let ?st = "foldl (run_batch fetch (fc_onProgress options) (length ?fs)) fetch_init
               (consecutive_groups (nat ?n) ?fs)"
  have pos: "0 < nat ?n" using assms by simp
  have loop: "fetch_loop fetch (fc_onProgress options) ?fs ?n 0 fetch_init = Some ?st"
    using fetch_loop_closed [OF assms, of fetch "fc_onProgress options" ?fs 0 fetch_init]
    by simp
  have run: "fetchContent fetch entries options =
               Some (map (merge_content (results ?st)) entries, ?st)"
    using False loop
    by (simp add: fetchContent_def Let_def)
  have cc: "concat (consecutive_groups (nat ?n) ?fs) = ?fs"
    by (rule concat_consecutive_groups [OF pos])
  have r: "results ?st = record_results Map.empty (outcomes fetch 0 ?fs)"
    by (simp add: groups_results cc fetch_init_def)
  have c: "completed ?st = length ?fs"
    by (simp add: groups_completed cc fetch_init_def)
  have p: "progress ?st =
             (if fc_onProgress options then map (\<lambda>j. (j, length ?fs)) [1 ..< length ?fs + 1]
              else [])"
    by (simp add: groups_progress cc fetch_init_def)
  have b: "batches ?st = group_starts 0 (consecutive_groups (nat ?n) ?fs)"
    by (simp add: groups_batches fetch_init_def)
  show ?thesis
    using run r c p b by simp
qed


text \<open>
  C6. For a concurrency limit of at least 1, with M qualifying files and an observer,
  the observer is called M times, with the arguments (1, M), (2, M), ..., (M, M) in this
  order; without an observer the same entry list is returned and nothing is reported.
\<close>

theorem C6_progress_calls:
  assumes "1 \<le> concurrency_value options"
  shows "\<exists>out st st'.
           fetchContent fetch entries (options\<lparr>fc_onProgress := True\<rparr>) = Some (out, st) \<and>
           progress st =
             map (\<lambda>j. (j, length (filesToFetch_of entries options)))
               [1 ..< length (filesToFetch_of entries options) + 1] \<and>
           length (progress st) = length (filesToFetch_of entries options) \<and>
           fetchContent fetch entries (options\<lparr>fc_onProgress := False\<rparr>) = Some (out, st') \<and>
           progress st' = []"
proof -
  have n: "1 \<le> concurrency_value (options\<lparr>fc_onProgress := b\<rparr>)" for b
    using assms by (simp add: concurrency_value_def)
  have f: "filesToFetch_of entries (options\<lparr>fc_onProgress := b\<rparr>) =
           filesToFetch_of entries options" for b
    by (simp add: filesToFetch_of_def maxFileSize_value_def)
  from fetchContent_run [OF n [of True], of fetch entries]
       fetchContent_run [OF n [of False], of fetch entries]
  show ?thesis
    by (auto simp: f Suc_le_eq)
qed

lemma three_files_to_fetch: "filesToFetch_of three_files two_at_a_time = three_files"
  by (simp add: filesToFetch_of_def three_files_def two_at_a_time_def needs_fetch_def
      file_entry_def maxFileSize_value_def DEFAULT_MAX_FILE_SIZE_def)

lemma two_at_a_time_value: "concurrency_value two_at_a_time = 2"
  by (simp add: concurrency_value_def two_at_a_time_def)



theorem C6_witness:
  "1 \<le> concurrency_value two_at_a_time \<and>
   (\<exists>out st st'.
      fetchContent fetch_all three_files (two_at_a_time\<lparr>fc_onProgress := True\<rparr>) = Some (out, st) \<and>
      progress st = [(1, 3), (2, 3), (3, 3)] \<and>
      fetchContent fetch_all three_files (two_at_a_time\<lparr>fc_onProgress := False\<rparr>) = Some (out, st') \<and>
      progress st' = [])"
proof -
  have n: "1 \<le> concurrency_value two_at_a_time"
    by (simp add: two_at_a_time_value)
  have l: "length three_files = 3"
    by (simp add: three_files_def)
  have u: "map (\<lambda>j. (j, 3::nat)) [Suc 0 ..< 4] = [(1, 3), (2, 3), (3, 3)]"
    by (simp add: upt_rec)
  from C6_progress_calls [OF n, of fetch_all three_files] n
  show ?thesis
    by (simp add: three_files_to_fetch l u) blast
qed

lemma filesToFetch_of_filter: "filesToFetch_of entries options = filter (qualifies options) entries"
  by (simp add: filesToFetch_of_def qualifies_def [abs_def])

lemma qualifies_File: "qualifies options e \<Longrightarrow> entry_type e = File"
  by (simp add: qualifies_def needs_fetch_def split: if_splits)

lemma record_results_Some:
  "record_results m rs s = Some t \<Longrightarrow> m s = Some t \<or> (s, Some t) \<in> set rs"
proof (induction rs arbitrary: m)
  case Nil
  then show ?case by simp
next
  case (Cons r rs)
  from Cons.IH [OF Cons.prems [simplified]]
  show ?case
    by (cases r) (auto split: option.splits if_splits)
qed

lemma record_results_keeps: "m s \<noteq> None \<Longrightarrow> record_results m rs s \<noteq> None"
  by (induction rs arbitrary: m) (auto split: option.splits)

lemma record_results_hit: "(s, Some t) \<in> set rs \<Longrightarrow> record_results m rs s \<noteq> None"
proof (induction rs arbitrary: m)
  case Nil
  then show ?case by simp
next
  case (Cons r rs)
  show ?case
  proof (cases "r = (s, Some t)")
    case True
    then show ?thesis
      using record_results_keeps [of "m(s \<mapsto> t)" s rs] by simp
  next
    case False
    with Cons show ?thesis by simp
  qed
qed

lemma in_outcomes:
  "(s, r) \<in> set (outcomes fetch k0 es) \<longleftrightarrow>
   (\<exists>j < length es. s = entry_sha (es ! j) \<and> r = fetch (k0 + j) (entry_sha (es ! j)))"
  by (force simp: outcomes_def set_zip)

lemma fetched_Some:
  "record_results Map.empty (outcomes fetch 0 fs) s = Some t \<Longrightarrow>
   \<exists>j < length fs. entry_sha (fs ! j) = s \<and> fetch j s = Some t"
  using record_results_Some [of Map.empty "outcomes fetch 0 fs" s t]
  by (auto simp: in_outcomes)

lemma fetched_hit:
  "j < length fs \<Longrightarrow> entry_sha (fs ! j) = s \<Longrightarrow> fetch j s \<noteq> None \<Longrightarrow>
   record_results Map.empty (outcomes fetch 0 fs) s \<noteq> None"
proof -
  assume a: "j < length fs" "entry_sha (fs ! j) = s" "fetch j s \<noteq> None"
  then obtain t where t: "fetch j s = Some t" by auto
  have "(s, Some t) \<in> set (outcomes fetch 0 fs)"
    using a t by (auto simp: in_outcomes)
  then show ?thesis by (rule record_results_hit)
qed


lemma fetchContent_merged:
  assumes "1 \<le> concurrency_value options"
  shows "\<exists>st. fetchContent fetch entries options =
           Some (map (merge_content
                        (record_results Map.empty
                           (outcomes fetch 0 (filesToFetch_of entries options)))) entries, st)"
  using fetchContent_run [OF assms, of fetch entries] by blast

text \<open>
  C4. Let every fetch of the object \<open>X\<close> fail and every fetch of any other object
  succeed, for a concurrency limit of at least 1. Then fetchContent returns (it does not
  throw), the list it returns is as long as the input, every qualifying entry with
  another object id carries a fetched body of its object and is otherwise as given, and
  every qualifying entry with the object id \<open>X\<close> is returned as it was given, so without
  content when it came without.
\<close>

theorem C4_one_failed_fetch:
  assumes n: "1 \<le> concurrency_value options"
      and fails: "\<forall>k. fetch k X = None"
      and others: "\<forall>k s. s \<noteq> X \<longrightarrow> fetch k s \<noteq> None"
  shows "\<exists>out st.
           fetchContent fetch entries options = Some (out, st) \<and>
           length out = length entries \<and>
           (\<forall>i < length entries.
              qualifies options (entries ! i) \<longrightarrow>
                (if entry_sha (entries ! i) = X then out ! i = entries ! i
                 else \<exists>k text. fetch k (entry_sha (entries ! i)) = Some text \<and>
                        content (out ! i) = Some text \<and>
                        out ! i = (entries ! i)\<lparr>content := Some text\<rparr>))"
proof -
  let ?fs = "filesToFetch_of entries options"
  let ?R = "record_results Map.empty (outcomes fetch 0 ?fs)"
  obtain st where run:
    "fetchContent fetch entries options = Some (map (merge_content ?R) entries, st)"
    using fetchContent_merged [OF n] by blast
  have noX: "?R X = None"
  proof (cases "?R X")
    case (Some t)
    from fetched_Some [OF this] fails show ?thesis by auto
  qed simp
  have each: "if entry_sha (entries ! i) = X
              then merge_content ?R (entries ! i) = entries ! i
              else \<exists>k text. fetch k (entry_sha (entries ! i)) = Some text \<and>
                     content (merge_content ?R (entries ! i)) = Some text \<and>
                     merge_content ?R (entries ! i) = (entries ! i)\<lparr>content := Some text\<rparr>"
    if i: "i < length entries" and q: "qualifies options (entries ! i)" for i
  proof (cases "entry_sha (entries ! i) = X")
    case True
    then show ?thesis by (simp add: merge_content_def noX)
  next
    case False
    have "entries ! i \<in> set ?fs"
      using i q by (simp add: filesToFetch_of_filter)
    then obtain j where j: "j < length ?fs" "?fs ! j = entries ! i"
      by (auto simp: in_set_conv_nth)
    have f: "fetch j (entry_sha (entries ! i)) \<noteq> None"
      using others False by blast
    have s: "entry_sha (?fs ! j) = entry_sha (entries ! i)"
      using j(2) by simp
    from fetched_hit [where fetch = fetch, OF j(1) s f]
    obtain t where t: "?R (entry_sha (entries ! i)) = Some t" by auto
    from fetched_Some [OF t] obtain k where "fetch k (entry_sha (entries ! i)) = Some t"
      by blast
    then show ?thesis
      using False t qualifies_File [OF q] by (auto simp: merge_content_def)
  qed
  show ?thesis
    using run each by (intro exI [of _ "map (merge_content ?R) entries"] exI [of _ st]) simp
qed

lemma filter_nth_index:
  "j < length (filter P xs) \<Longrightarrow>
   \<exists>i < length xs. P (xs ! i) \<and> filter P xs ! j = xs ! i \<and> length (filter P (take i xs)) = j"
proof (induction xs arbitrary: j)
  case Nil
  then show ?case by simp
next
  case (Cons x xs)
  show ?case
  proof (cases "P x")
    case True
    show ?thesis
    proof (cases j)
      case 0
      with True show ?thesis by (intro exI [of _ 0]) simp
    next
      case (Suc j')
      with Cons.prems True have "j' < length (filter P xs)" by simp
      from Cons.IH [OF this] obtain i where
        "i < length xs" "P (xs ! i)" "filter P xs ! j' = xs ! i" "length (filter P (take i xs)) = j'"
        by blast
      with True Suc show ?thesis by (intro exI [of _ "Suc i"]) simp
    qed
  next
    case False
    with Cons.prems have "j < length (filter P xs)" by simp
    from Cons.IH [OF this] obtain i where
      "i < length xs" "P (xs ! i)" "filter P xs ! j = xs ! i" "length (filter P (take i xs)) = j"
      by blast
    with False show ?thesis by (intro exI [of _ "Suc i"]) simp
  qed
qed

lemma filter_index_nth:
  "i < length xs \<Longrightarrow> P (xs ! i) \<Longrightarrow>
   length (filter P (take i xs)) < length (filter P xs) \<and>
   filter P xs ! length (filter P (take i xs)) = xs ! i"
proof (induction xs arbitrary: i)
  case Nil
  then show ?case by simp
next
  case (Cons x xs)
  then show ?case by (cases i) auto
qed

lemma distinct_filter_nth:
  "distinct (map f (filter P xs)) \<Longrightarrow> i < length xs \<Longrightarrow> j < length xs \<Longrightarrow>
   P (xs ! i) \<Longrightarrow> P (xs ! j) \<Longrightarrow> f (xs ! i) = f (xs ! j) \<Longrightarrow> i = j"
proof (induction xs arbitrary: i j)
  case Nil
  then show ?case by simp
next
  case (Cons x xs)
  show ?case
  proof (cases i)
    case 0
    show ?thesis
    proof (cases j)
      case (Suc j')
      with Cons.prems 0 have "P x" "xs ! j' \<in> set (filter P xs)" "f x = f (xs ! j')"
        by auto
      with Cons.prems(1) show ?thesis by force
    qed (simp add: 0)
  next
    case (Suc i')
    show ?thesis
    proof (cases j)
      case 0
      with Cons.prems Suc have "P x" "xs ! i' \<in> set (filter P xs)" "f x = f (xs ! i')"
        by auto
      with Cons.prems(1) show ?thesis by force
    next
      case (Suc j')
      have "distinct (map f (filter P xs))"
        using Cons.prems(1) by (simp split: if_splits)
      from Cons.IH [OF this, of i' j'] Cons.prems \<open>i = Suc i'\<close> Suc
      show ?thesis by simp
    qed
  qed
qed


lemma own_call_nth:
  assumes "i < length entries" "qualifies options (entries ! i)"
  shows "own_call entries options i < length (filesToFetch_of entries options) \<and>
         filesToFetch_of entries options ! own_call entries options i = entries ! i"
  using filter_index_nth [OF assms(1), of "qualifies options"] assms(2)
  by (simp add: own_call_def filesToFetch_of_filter)

lemma filesToFetch_nth:
  assumes "j < length (filesToFetch_of entries options)"
  shows "\<exists>i < length entries. qualifies options (entries ! i) \<and>
           filesToFetch_of entries options ! j = entries ! i \<and> own_call entries options i = j"
  using filter_nth_index [of j "qualifies options" entries] assms
  by (simp add: own_call_def filesToFetch_of_filter)

lemma merged_entry:
  "merge_content R e =
     (if entry_type e = File \<and> R (entry_sha e) \<noteq> None then e\<lparr>content := R (entry_sha e)\<rparr>
      else e)"
  by (simp add: merge_content_def)

text \<open>
  C5, amended. For a concurrency limit of at least 1 fetchContent returns a list of the
  same length and order. Content is merged by object id: an entry receives content
  exactly when it is a file and some fetch of its object id, made for a qualifying
  entry, succeeded; its content is then the body of such a fetch and its other fields
  are unchanged; every other entry is returned as given. When the file entries have
  pairwise distinct object ids this is the property as the specification words it:
  exactly the entries that qualify and whose own fetch succeeded carry content.
\<close>

theorem C5_amended_frame:
  assumes n: "1 \<le> concurrency_value options"
  shows "\<exists>out st.
           fetchContent fetch entries options = Some (out, st) \<and>
           length out = length entries \<and>
           (\<forall>i < length entries.
              if entry_type (entries ! i) = File \<and>
                 id_fetched fetch (filesToFetch_of entries options) (entry_sha (entries ! i))
              then \<exists>j < length (filesToFetch_of entries options).
                     entry_sha (filesToFetch_of entries options ! j) = entry_sha (entries ! i) \<and>
                     fetch j (entry_sha (entries ! i)) \<noteq> None \<and>
                     out ! i = (entries ! i)\<lparr>content := fetch j (entry_sha (entries ! i))\<rparr>
              else out ! i = entries ! i) \<and>
           (distinct (map entry_sha (filter (\<lambda>e. entry_type e = File) entries)) \<longrightarrow>
              returns_as_specified fetch entries options)"
proof -
  let ?fs = "filesToFetch_of entries options"
  let ?R = "record_results Map.empty (outcomes fetch 0 ?fs)"
  obtain st where run:
    "fetchContent fetch entries options = Some (map (merge_content ?R) entries, st)"
    using fetchContent_merged [OF n] by blast
  have R_iff: "?R s \<noteq> None \<longleftrightarrow> id_fetched fetch ?fs s" for s
  proof
    assume "?R s \<noteq> None"
    then obtain t where "?R s = Some t" by auto
    from fetched_Some [OF this] show "id_fetched fetch ?fs s"
      by (auto simp: id_fetched_def)
  next
    assume "id_fetched fetch ?fs s"
    then obtain j where "j < length ?fs" "entry_sha (?fs ! j) = s" "fetch j s \<noteq> None"
      by (auto simp: id_fetched_def)
    from fetched_hit [where fetch = fetch, OF this] show "?R s \<noteq> None" .
  qed
  have general:
    "if entry_type (entries ! i) = File \<and> id_fetched fetch ?fs (entry_sha (entries ! i))
     then \<exists>j < length ?fs.
            entry_sha (?fs ! j) = entry_sha (entries ! i) \<and>
            fetch j (entry_sha (entries ! i)) \<noteq> None \<and>
            merge_content ?R (entries ! i) =
              (entries ! i)\<lparr>content := fetch j (entry_sha (entries ! i))\<rparr>
     else merge_content ?R (entries ! i) = entries ! i" for i
  proof (cases "entry_type (entries ! i) = File \<and> id_fetched fetch ?fs (entry_sha (entries ! i))")
    case True
    then obtain t where t: "?R (entry_sha (entries ! i)) = Some t"
      using R_iff [of "entry_sha (entries ! i)"] by auto
    from fetched_Some [OF t] obtain j where
      "j < length ?fs" "entry_sha (?fs ! j) = entry_sha (entries ! i)"
      "fetch j (entry_sha (entries ! i)) = Some t"
      by blast
    with True t show ?thesis
      by (auto simp: merged_entry)
  next
    case False
    then show ?thesis
      using R_iff [of "entry_sha (entries ! i)"] by (auto simp: merged_entry)
  qed
  have special: "returns_as_specified fetch entries options"
    if d: "distinct (map entry_sha (filter (\<lambda>e. entry_type e = File) entries))"
  proof -
    have own: "merge_content ?R (entries ! i) =
        (if qualifies options (entries ! i) \<and>
            fetch (own_call entries options i) (entry_sha (entries ! i)) \<noteq> None
         then (entries ! i)\<lparr>content := fetch (own_call entries options i) (entry_sha (entries ! i))\<rparr>
         else entries ! i)"
      if i: "i < length entries" for i
    proof -
      let ?e = "entries ! i"
      have only: "qualifies options ?e \<and> fetch (own_call entries options i) (entry_sha ?e) = Some t"
        if isfile: "entry_type ?e = File" and t: "?R (entry_sha ?e) = Some t" for t
      proof -
        from fetched_Some [OF t] obtain j where j: "j < length ?fs"
          "entry_sha (?fs ! j) = entry_sha ?e" "fetch j (entry_sha ?e) = Some t"
          by blast
        from filesToFetch_nth [OF j(1)] obtain i' where i': "i' < length entries"
          "qualifies options (entries ! i')" "?fs ! j = entries ! i'" "own_call entries options i' = j"
          by blast
        have "i' = i"
          using distinct_filter_nth [OF d i'(1) i, of ] qualifies_File [OF i'(2)] isfile j(2) i'(3)
          by simp
        with i' j show ?thesis by simp
      qed
      show ?thesis
      proof (cases "qualifies options ?e \<and>
                    fetch (own_call entries options i) (entry_sha ?e) \<noteq> None")
        case True
        from own_call_nth [OF i] True have o: "own_call entries options i < length ?fs"
          "?fs ! own_call entries options i = ?e" by simp_all
        have "id_fetched fetch ?fs (entry_sha ?e)"
          using o True by (auto simp: id_fetched_def)
        then obtain t where t: "?R (entry_sha ?e) = Some t"
          using R_iff [of "entry_sha ?e"] by auto
        have isfile: "entry_type ?e = File" using True qualifies_File by blast
        from only [OF isfile t] t isfile True show ?thesis
          by (simp add: merged_entry)
      next
        case False
        have "\<not> (entry_type ?e = File \<and> ?R (entry_sha ?e) \<noteq> None)"
        proof
          assume a: "entry_type ?e = File \<and> ?R (entry_sha ?e) \<noteq> None"
          then obtain t where "?R (entry_sha ?e) = Some t" by auto
          from only [OF _ this] a False show False by simp
        qed
        with False show ?thesis by (auto simp: merged_entry)
      qed
    qed
    show ?thesis
      using run own by (simp add: returns_as_specified_def)
  qed
  show ?thesis
  proof (intro exI [of _ "map (merge_content ?R) entries"] exI [of _ st] conjI allI impI)
    show "fetchContent fetch entries options = Some (map (merge_content ?R) entries, st)"
      by (rule run)
    show "length (map (merge_content ?R) entries) = length entries"
      by simp
    show "returns_as_specified fetch entries options"
      if "distinct (map entry_sha (filter (\<lambda>e. entry_type e = File) entries))"
      using that by (rule special)
    fix i
    assume i: "i < length entries"
    show "if entry_type (entries ! i) = File \<and> id_fetched fetch ?fs (entry_sha (entries ! i))
          then \<exists>j < length ?fs.
                 entry_sha (?fs ! j) = entry_sha (entries ! i) \<and>
                 fetch j (entry_sha (entries ! i)) \<noteq> None \<and>
                 map (merge_content ?R) entries ! i =
                   (entries ! i)\<lparr>content := fetch j (entry_sha (entries ! i))\<rparr>
          else map (merge_content ?R) entries ! i = entries ! i"
      unfolding nth_map [OF i] by (rule general)
  qed
qed

lemma default_concurrency: "1 \<le> concurrency_value default_fetch_options"
  by (simp add: concurrency_value_def default_fetch_options_def DEFAULT_CONCURRENCY_def)

lemma default_qualifies:
  "qualifies default_fetch_options (file_entry p s n) \<longleftrightarrow> n \<le> 1048576"
  by (auto simp: qualifies_def needs_fetch_def file_entry_def maxFileSize_value_def
      default_fetch_options_def DEFAULT_MAX_FILE_SIZE_def)

lemma twins_to_fetch: "filesToFetch_of twins default_fetch_options = twins"
  by (simp add: filesToFetch_of_filter twins_def default_qualifies)

lemma size_twins_to_fetch:
  "filesToFetch_of size_twins default_fetch_options = [file_entry ''a.bin'' ''s'' 5]"
  by (simp add: filesToFetch_of_filter size_twins_def default_qualifies)

lemma twins_results:
  "record_results Map.empty (outcomes fetch_second 0 twins) ''s'' = Some ''hello''"
  by (simp add: outcomes_def twins_def fetch_second_def file_entry_def upt_rec)

lemma size_twins_results:
  "record_results Map.empty (outcomes fetch_all 0 [file_entry ''a.bin'' ''s'' 5]) ''s'' =
     Some ''body of s''"
  by (simp add: outcomes_def fetch_all_def file_entry_def upt_rec)

lemma returns_as_specified_nth:
  assumes "returns_as_specified fetch entries options"
      and "fetchContent fetch entries options = Some (out, st)"
      and "i < length entries"
  shows "out ! i =
           (if qualifies options (entries ! i) \<and>
               fetch (own_call entries options i) (entry_sha (entries ! i)) \<noteq> None
            then (entries ! i)
                   \<lparr>content := fetch (own_call entries options i) (entry_sha (entries ! i))\<rparr>
            else entries ! i)"
  using assms by (simp add: returns_as_specified_def)

lemma own_call_0: "own_call entries options 0 = 0"
  by (simp add: own_call_def filesToFetch_of_filter)

text \<open>
  C5 as stated fails where two file entries share an object id. With two copies of one
  file, the first fetch failing and the second succeeding, the entry whose fetch failed
  is returned with content; and a file above the size bound that shares its object id
  with a small file is returned with content although it does not qualify.
\<close>

theorem C5_counterexample:
  "\<not> returns_as_specified fetch_second twins default_fetch_options \<and>
   \<not> returns_as_specified fetch_all size_twins default_fetch_options"
proof
  show "\<not> returns_as_specified fetch_second twins default_fetch_options"
  proof
    let ?R = "record_results Map.empty (outcomes fetch_second 0 twins)"
    assume a: "returns_as_specified fetch_second twins default_fetch_options"
    obtain st where run: "fetchContent fetch_second twins default_fetch_options =
        Some (map (merge_content ?R) twins, st)"
      using fetchContent_merged [OF default_concurrency, of fetch_second twins]
      by (auto simp: twins_to_fetch)
    have l: "0 < length twins" by (simp add: twins_def)
    have own: "fetch_second (own_call twins default_fetch_options 0) (entry_sha (twins ! 0)) = None"
      by (simp add: own_call_0 fetch_second_def)
    from returns_as_specified_nth [OF a run l]
    have "map (merge_content ?R) twins ! 0 = twins ! 0"
      by (simp only: own) simp
    then have "merge_content ?R (file_entry ''a.txt'' ''s'' 5) = file_entry ''a.txt'' ''s'' 5"
      by (simp add: twins_def)
    then have "content (merge_content ?R (file_entry ''a.txt'' ''s'' 5)) = None"
      by (simp add: file_entry_def)
    moreover have "content (merge_content ?R (file_entry ''a.txt'' ''s'' 5)) = Some ''hello''"
      using twins_results by (simp add: merge_content_def file_entry_def)
    ultimately show False by simp
  qed
  show "\<not> returns_as_specified fetch_all size_twins default_fetch_options"
  proof
    let ?R = "record_results Map.empty (outcomes fetch_all 0 [file_entry ''a.bin'' ''s'' 5])"
    assume a: "returns_as_specified fetch_all size_twins default_fetch_options"
    obtain st where run: "fetchContent fetch_all size_twins default_fetch_options =
        Some (map (merge_content ?R) size_twins, st)"
      using fetchContent_merged [OF default_concurrency, of fetch_all size_twins]
      by (auto simp: size_twins_to_fetch)
    have q: "qualifies default_fetch_options (size_twins ! Suc 0) = False"
      by (simp add: size_twins_def default_qualifies)
    have l: "Suc 0 < length size_twins" by (simp add: size_twins_def)
    from returns_as_specified_nth [OF a run l]
    have "map (merge_content ?R) size_twins ! Suc 0 = size_twins ! Suc 0"
      by (simp only: q) simp
    then have "merge_content ?R (file_entry ''b.bin'' ''s'' 2000000) =
               file_entry ''b.bin'' ''s'' 2000000"
      by (simp add: size_twins_def)
    then have "content (merge_content ?R (file_entry ''b.bin'' ''s'' 2000000)) = None"
      by (simp add: file_entry_def)
    moreover have "content (merge_content ?R (file_entry ''b.bin'' ''s'' 2000000)) =
                   Some ''body of s''"
      using size_twins_results by (simp add: merge_content_def file_entry_def)
    ultimately show False by simp
  qed
qed


lemma two_at_a_time_qualifies:
  "qualifies two_at_a_time (file_entry p s n) \<longleftrightarrow> n \<le> 1048576"
  by (auto simp: qualifies_def needs_fetch_def file_entry_def maxFileSize_value_def
      two_at_a_time_def DEFAULT_MAX_FILE_SIZE_def)

theorem C4_witness:
  "1 \<le> concurrency_value two_at_a_time \<and>
   (\<exists>out st. fetchContent fail_s2 three_files two_at_a_time = Some (out, st) \<and>
      length out = 3 \<and>
      content (out ! 0) = Some ''body of s1'' \<and>
      out ! Suc 0 = file_entry ''b.ts'' ''s2'' 20 \<and>
      content (out ! 2) = Some ''body of s3'')"
proof -
  have n: "1 \<le> concurrency_value two_at_a_time"
    by (simp add: two_at_a_time_value)
  have f: "\<forall>k. fail_s2 k ''s2'' = None"
    by (simp add: fail_s2_def)
  have o: "\<forall>k s. s \<noteq> ''s2'' \<longrightarrow> fail_s2 k s \<noteq> None"
    by (simp add: fail_s2_def)
  from C4_one_failed_fetch [OF n f o, of three_files]
  obtain out st where r: "fetchContent fail_s2 three_files two_at_a_time = Some (out, st)"
    and l: "length out = length three_files"
    and e: "\<forall>i < length three_files.
              qualifies two_at_a_time (three_files ! i) \<longrightarrow>
                (if entry_sha (three_files ! i) = ''s2'' then out ! i = three_files ! i
                 else \<exists>k text. fail_s2 k (entry_sha (three_files ! i)) = Some text \<and>
                        content (out ! i) = Some text \<and>
                        out ! i = (three_files ! i)\<lparr>content := Some text\<rparr>)"
    by blast
  have l3: "length three_files = 3"
    by (simp add: three_files_def)
  have t: "three_files ! 0 = file_entry ''a.ts'' ''s1'' 10"
    "three_files ! Suc 0 = file_entry ''b.ts'' ''s2'' 20"
    "three_files ! 2 = file_entry ''c.ts'' ''s3'' 30"
    by (simp_all add: three_files_def)
  have q: "qualifies two_at_a_time (three_files ! 0)"
    "qualifies two_at_a_time (three_files ! Suc 0)" "qualifies two_at_a_time (three_files ! 2)"
    by (simp_all add: t two_at_a_time_qualifies)
  have s: "entry_sha (three_files ! 0) = ''s1''" "entry_sha (three_files ! Suc 0) = ''s2''"
    "entry_sha (three_files ! 2) = ''s3''"
    by (simp_all add: t file_entry_def)
  have "\<exists>k text. fail_s2 k ''s1'' = Some text \<and> content (out ! 0) = Some text"
    using e [rule_format, of 0] q(1) by (auto simp: l3 s)
  then have e0: "content (out ! 0) = Some ''body of s1''"
    by (auto simp: fail_s2_def)
  have e1: "out ! Suc 0 = file_entry ''b.ts'' ''s2'' 20"
    using e [rule_format, of "Suc 0"] q(2) by (simp add: l3 s) (simp add: t)
  have "\<exists>k text. fail_s2 k ''s3'' = Some text \<and> content (out ! 2) = Some text"
    using e [rule_format, of 2] q(3) by (auto simp: l3 s)
  then have e2: "content (out ! 2) = Some ''body of s3''"
    by (auto simp: fail_s2_def)
  show ?thesis
    using n r l e0 e1 e2 by (auto simp: l3)
qed

theorem C5_witness:
  "1 \<le> concurrency_value two_at_a_time \<and>
   distinct (map entry_sha (filter (\<lambda>e. entry_type e = File) three_files)) \<and>
   returns_as_specified fail_s2 three_files two_at_a_time \<and>
   (\<exists>out st. fetchContent fail_s2 three_files two_at_a_time = Some (out, st) \<and>
      length out = 3)"
proof -
  have n: "1 \<le> concurrency_value two_at_a_time"
    by (simp add: two_at_a_time_value)
  have d: "distinct (map entry_sha (filter (\<lambda>e. entry_type e = File) three_files))"
    by (simp add: three_files_def file_entry_def)
  have l: "length three_files = 3"
    by (simp add: three_files_def)
  from C5_amended_frame [OF n, of fail_s2 three_files] d n l
  show ?thesis by auto
qed

section \<open>The extension of an entry\<close>

lemma extname_loop_scan:
  "n \<le> length p \<Longrightarrow> extname_loop p n st = scan (rev (take n p)) st"
proof (induction n arbitrary: st)
  case 0
  then show ?case by simp
next
  case (Suc n)
  then have "take (Suc n) p = take n p @ [p ! n]"
    by (simp add: take_Suc_conv_app_nth)
  with Suc show ?case by simp
qed

lemma scan_slashes:
  "matchedSlash st \<Longrightarrow> scan r st = scan (dropWhile (\<lambda>c. c = CHR ''/'') r) st"
  by (induction r) simp_all

lemma scan_segment:
  "CHR ''/'' \<notin> set u \<Longrightarrow> scan (u @ rest) st = scan rest (scan_seg u (length rest) st)"
  by (induction u arbitrary: st) auto

lemma scan_seg_after_dot:
  "startDot st \<noteq> - 1 \<Longrightarrow> ext_end st \<noteq> - 1 \<Longrightarrow>
   scan_seg u b st =
     st\<lparr>preDotState := (if u = [] then preDotState st
                         else if last u = CHR ''.'' then 1 else - 1)\<rparr>"
proof (induction u arbitrary: st)
  case Nil
  then show ?case by simp
next
  case (Cons c cs)
  let ?x = "if c = CHR ''.'' then 1 else - 1 :: int"
  have step: "ext_char c i st = st\<lparr>preDotState := ?x\<rparr>" for i
    using Cons.prems by (simp add: ext_char_def)
  have "scan_seg cs b (st\<lparr>preDotState := ?x\<rparr>) =
        st\<lparr>preDotState := ?x\<rparr>
          \<lparr>preDotState := (if cs = [] then preDotState (st\<lparr>preDotState := ?x\<rparr>)
                            else if last cs = CHR ''.'' then 1 else - 1)\<rparr>"
    using Cons.prems by (intro Cons.IH) simp_all
  then show ?case
    by (simp add: step)
qed

lemma scan_seg_before_dot:
  "startDot st = - 1 \<Longrightarrow> ext_end st \<noteq> - 1 \<Longrightarrow>
   scan_seg u b st =
     (case dropWhile (\<lambda>c. c \<noteq> CHR ''.'') u of
        [] \<Rightarrow> st
      | d # w \<Rightarrow>
          st\<lparr>startDot := (int (length w) + int b),
              preDotState := (if w = [] then preDotState st
                              else if last w = CHR ''.'' then 1 else - 1)\<rparr>)"
proof (induction u arbitrary: st)
  case Nil
  then show ?case by simp
next
  case (Cons c cs)
  show ?case
  proof (cases "c = CHR ''.''")
    case True
    let ?st = "st\<lparr>startDot := int (length cs) + int b\<rparr>"
    have step: "ext_char CHR ''.'' i st = st\<lparr>startDot := i\<rparr>" for i
      using Cons.prems by (simp add: ext_char_def)
    have "scan_seg cs b ?st =
          ?st\<lparr>preDotState := (if cs = [] then preDotState ?st
                               else if last cs = CHR ''.'' then 1 else - 1)\<rparr>"
      using Cons.prems by (intro scan_seg_after_dot) simp_all
    then show ?thesis
      using True by (simp add: step)
  next
    case False
    have step: "ext_char c i st = st" for i
      using Cons.prems False by (simp add: ext_char_def)
    from Cons.IH [OF Cons.prems] show ?thesis
      using False by (simp add: step)
  qed
qed

lemma scan_seg_first:
  "u \<noteq> [] \<Longrightarrow> ext_end st = - 1 \<Longrightarrow>
   scan_seg u b st =
     scan_seg u b (st\<lparr>matchedSlash := False, ext_end := (int (length u) + int b)\<rparr>)"
  by (cases u) (simp_all add: ext_char_def Let_def add_ac)


text \<open>
  The state of the pass when it ends on the path \<open>p\<close>: \<open>u\<close> is the final segment read
  backwards and \<open>rest\<close> what lies before it, read backwards too.
\<close>

lemma extname_loop_final:
  fixes p :: string
  defines "r1 \<equiv> dropWhile (\<lambda>c. c = CHR ''/'') (rev p)"
  defines "u \<equiv> takeWhile (\<lambda>c. c \<noteq> CHR ''/'') r1"
  defines "rest \<equiv> dropWhile (\<lambda>c. c \<noteq> CHR ''/'') r1"
  defines "init1 \<equiv> ext_init\<lparr>matchedSlash := False, ext_end := int (length u) + int (length rest)\<rparr>"
  shows "extname_loop p (length p) ext_init =
     (if u = [] then ext_init
      else (case dropWhile (\<lambda>c. c \<noteq> CHR ''.'') u of
              [] \<Rightarrow> init1
            | d # w \<Rightarrow>
                init1\<lparr>startDot := int (length w) + int (length rest),
                      preDotState := (if w = [] then 0
                                      else if last w = CHR ''.'' then 1 else - 1)\<rparr>)
           \<lparr>startPart := int (length rest)\<rparr>)"
proof -
  have split: "r1 = u @ rest"
    by (simp add: u_def rest_def)
  have noslash: "CHR ''/'' \<notin> set u"
    using set_takeWhileD [of "CHR ''/''" "\<lambda>c. c \<noteq> CHR ''/''" r1] by (auto simp: u_def)
  have start: "extname_loop p (length p) ext_init = scan rest (scan_seg u (length rest) ext_init)"
  proof -
    have "extname_loop p (length p) ext_init = scan (rev p) ext_init"
      using extname_loop_scan [of "length p" p ext_init] by simp
    also have "\<dots> = scan r1 ext_init"
      unfolding r1_def by (rule scan_slashes) (simp add: ext_init_def)
    also have "\<dots> = scan rest (scan_seg u (length rest) ext_init)"
      unfolding split by (rule scan_segment [OF noslash])
    finally show ?thesis .
  qed
  show ?thesis
  proof (cases "u = []")
    case True
    have "r1 = []"
    proof (cases r1)
      case (Cons c cs)
      then have "c \<noteq> CHR ''/''"
        using hd_dropWhile [of "\<lambda>c. c = CHR ''/''" "rev p"] by (simp add: r1_def)
      with Cons True show ?thesis by (simp add: u_def)
    qed simp
    with True split have "rest = []" by simp
    with True start show ?thesis by simp
  next
    case False
    let ?S = "case dropWhile (\<lambda>c. c \<noteq> CHR ''.'') u of
                [] \<Rightarrow> init1
              | d # w \<Rightarrow>
                  init1\<lparr>startDot := int (length w) + int (length rest),
                        preDotState := (if w = [] then 0
                                        else if last w = CHR ''.'' then 1 else - 1)\<rparr>"
    have i1: "startDot init1 = - 1" "ext_end init1 \<noteq> - 1" "preDotState init1 = 0"
      by (simp_all add: init1_def ext_init_def)
    have "scan_seg u (length rest) ext_init = scan_seg u (length rest) init1"
      unfolding init1_def by (rule scan_seg_first [OF False]) (simp add: ext_init_def)
    also have "\<dots> = ?S"
      using scan_seg_before_dot [OF i1(1,2), of u "length rest"] unfolding i1(3) .
    finally have seg: "scan_seg u (length rest) ext_init = ?S" .
    have ms: "\<not> matchedSlash ?S" and sp: "startPart ?S = 0"
      by (simp_all add: init1_def ext_init_def split: list.splits)
    have "scan rest ?S = ?S\<lparr>startPart := int (length rest)\<rparr>"
    proof (cases rest)
      case Nil
      then show ?thesis using sp by simp
    next
      case (Cons c cs)
      then have "c = CHR ''/''"
        using hd_dropWhile [of "\<lambda>c. c \<noteq> CHR ''/''" r1] by (simp add: rest_def)
      with Cons ms show ?thesis by simp
    qed
    with start seg False show ?thesis
      by simp
  qed
qed


lemma extname_final_segment:
  "extname p =
     (let seg = final_segment p
      in if CHR ''.'' \<in> set seg \<and> before_last_dot seg \<noteq> [] \<and> seg \<noteq> ''..''
         then CHR ''.'' # after_last_dot seg
         else [])"
proof -
  define sl where "sl = takeWhile (\<lambda>c. c = CHR ''/'') (rev p)"
  define r1 where "r1 = dropWhile (\<lambda>c. c = CHR ''/'') (rev p)"
  define u where "u = takeWhile (\<lambda>c. c \<noteq> CHR ''/'') r1"
  define rest where "rest = dropWhile (\<lambda>c. c \<noteq> CHR ''/'') r1"
  define b where "b = length rest"
  define tw where "tw = takeWhile (\<lambda>c. c \<noteq> CHR ''.'') u"
  define dw where "dw = dropWhile (\<lambda>c. c \<noteq> CHR ''.'') u"
  let ?init1 = "ext_init\<lparr>matchedSlash := False, ext_end := int (length u) + int b\<rparr>"
  have seg: "final_segment p = rev u"
    by (simp add: final_segment_def u_def r1_def)
  have final: "extname_loop p (length p) ext_init =
     (if u = [] then ext_init
      else (case dw of
              [] \<Rightarrow> ?init1
            | d # w \<Rightarrow>
                ?init1\<lparr>startDot := int (length w) + int b,
                       preDotState := (if w = [] then 0
                                       else if last w = CHR ''.'' then 1 else - 1)\<rparr>)
           \<lparr>startPart := int b\<rparr>)"
    using extname_loop_final [of p]
    by (simp only: u_def r1_def rest_def b_def dw_def)
  have u_split: "u = tw @ dw"
    by (simp add: tw_def dw_def)
  have p_split: "p = rev rest @ rev u @ rev sl"
  proof -
    have "rev p = sl @ u @ rest"
      by (simp add: sl_def r1_def u_def rest_def)
    then have "rev (rev p) = rev (sl @ u @ rest)" by simp
    then show ?thesis by simp
  qed
  show ?thesis
  proof (cases "u = []")
    case True
    then have "extname_loop p (length p) ext_init = ext_init"
      by (simp add: final)
    then have "extname p = []"
      by (simp add: extname_def) (simp add: ext_init_def)
    with True show ?thesis
      by (simp add: seg)
  next
    case False
    show ?thesis
    proof (cases dw)
      case Nil
      then have "CHR ''.'' \<notin> set u"
        by (auto simp: dw_def dropWhile_eq_Nil_conv)
      moreover have "extname_loop p (length p) ext_init = ?init1\<lparr>startPart := int b\<rparr>"
        using False Nil by (simp add: final)
      then have "extname p = []"
        by (simp add: extname_def) (simp add: ext_init_def)
      ultimately show ?thesis
        by (simp add: seg)
    next
      case (Cons d w)
      have d: "d = CHR ''.''"
        using Cons by (simp add: dw_def dropWhile_eq_Cons_conv)
      have u_eq: "u = tw @ CHR ''.'' # w"
        using u_split Cons d by simp
      have notw: "CHR ''.'' \<notin> set tw"
        using set_takeWhileD [of "CHR ''.''" "\<lambda>c. c \<noteq> CHR ''.''" u] by (auto simp: tw_def)
      have dot: "CHR ''.'' \<in> set (rev u)"
        by (simp add: u_eq)
      have before: "before_last_dot (rev u) = rev w"
        using Cons by (simp add: before_last_dot_def dw_def [symmetric])
      have after: "after_last_dot (rev u) = rev tw"
        by (simp add: after_last_dot_def tw_def)
      have st: "startDot (extname_loop p (length p) ext_init) = int (length w) + int b"
        "ext_end (extname_loop p (length p) ext_init) = int (length u) + int b"
        "startPart (extname_loop p (length p) ext_init) = int b"
        "preDotState (extname_loop p (length p) ext_init) =
           (if w = [] then 0 else if last w = CHR ''.'' then 1 else - 1)"
        using False Cons by (simp_all add: final)
      show ?thesis
      proof (cases "w = []")
        case True
        then have "extname p = []"
          by (simp add: extname_def st)
        with True show ?thesis
          by (simp add: seg before)
      next
        case wne: False
        have dotdot: "(last w = CHR ''.'' \<and> length w + 1 = length u \<and> length w = 1) \<longleftrightarrow>
                      rev u = ''..''"
        proof
          assume a: "last w = CHR ''.'' \<and> length w + 1 = length u \<and> length w = 1"
          then obtain c where "w = [c]" by (cases w) auto
          with a have "w = [CHR ''.'']" by simp
          moreover from a u_eq have "tw = []" by simp
          ultimately show "rev u = ''..''" by (simp add: u_eq)
        next
          assume "rev u = ''..''"
          then have "rev (rev u) = rev ''..''" by simp
          then have uu: "u = ''..''" by simp
          then have "tw = []" by (simp add: tw_def)
          with u_eq uu have "w = [CHR ''.'']" by simp
          with uu show "last w = CHR ''.'' \<and> length w + 1 = length u \<and> length w = 1"
            by simp
        qed
        have slice: "js_slice p (int (length w) + int b) (int (length u) + int b) =
                     CHR ''.'' # rev tw"
        proof -
          have e1: "int (length w) + int b = int (b + length w)" by simp
          have e2: "int (length u) + int b = int (b + length w) + int (length tw + 1)"
            by (simp add: u_eq)
          have "js_slice p (int (length w) + int b) (int (length u) + int b) =
                js_slice p (int (b + length w)) (int (b + length w) + int (length tw + 1))"
            by (simp only: e1 e2)
          also have "\<dots> = take (length tw + 1) (drop (b + length w) p)"
            by (rule js_slice_window)
          also have "drop (b + length w) p = CHR ''.'' # rev tw @ rev sl"
            by (simp add: p_split u_eq b_def)
          finally show ?thesis by simp
        qed
        have "extname p = (if rev u = ''..'' then [] else CHR ''.'' # rev tw)"
        proof -
          have c: "(last w = CHR ''.'' \<and> int (length w) + int b = int (length u) + int b - 1 \<and>
                    int (length w) + int b = int b + 1) \<longleftrightarrow> rev u = ''..''"
            using dotdot by auto
          show ?thesis
            using wne c by (auto simp: extname_def st slice)
        qed
        then show ?thesis
          using wne dot by (simp add: seg before after)
      qed
    qed
  qed
qed

lemma js_split_no_sep: "c \<notin> set p \<Longrightarrow> js_split c p = [p]"
  by (induction p) auto

lemma js_split_single: "js_split c p = [s] \<Longrightarrow> c \<notin> set p"
  by (induction p arbitrary: s) (auto split: if_splits list.splits)

lemma last_js_split:
  "last (js_split c p) = rev (takeWhile (\<lambda>x. x \<noteq> c) (rev p))"
proof (induction p)
  case Nil
  then show ?case by simp
next
  case (Cons x xs)
  show ?case
  proof (cases "x = c")
    case True
    with Cons show ?thesis
      by (simp add: takeWhile_append)
  next
    case False
    obtain s ss where sp: "js_split c xs = s # ss"
      by (cases "js_split c xs") simp_all
    show ?thesis
    proof (cases "ss = []")
      case True
      with sp have "c \<notin> set xs" by (auto dest: js_split_single)
      then show ?thesis
        using False by (simp add: js_split_no_sep takeWhile_append)
    next
      case ne: False
      have "c \<in> set xs"
      proof (rule ccontr)
        assume "c \<notin> set xs"
        from js_split_no_sep [OF this] sp ne show False by simp
      qed
      with Cons sp ne False show ?thesis
        by (auto simp: takeWhile_append)
    qed
  qed
qed

lemma final_segment_split:
  assumes "p = [] \<or> last p \<noteq> CHR ''/''"
  shows "final_segment p = last (js_split CHR ''/'' p)"
proof -
  have "dropWhile (\<lambda>c. c = CHR ''/'') (rev p) = rev p"
    using assms by (cases "rev p") (auto simp: last_rev [symmetric] hd_rev)
  then show ?thesis
    by (simp add: final_segment_def last_js_split)
qed

lemma ascii_lower_char_idem: "ascii_lower_char (ascii_lower_char c) = ascii_lower_char c"
proof -
  have "of_char (char_of (of_char c + 32 :: nat)) = (of_char c + 32 :: nat)"
    if "(of_char c :: nat) \<le> 90"
    using that by simp
  then show ?thesis
    by (auto simp: ascii_lower_char_def Let_def)
qed

lemma ascii_lower_idem: "ascii_lower (ascii_lower s) = ascii_lower s"
  by (simp add: ascii_lower_def ascii_lower_char_idem)

lemma ascii_lower_dot: "ascii_lower (CHR ''.'' # s) = CHR ''.'' # ascii_lower s"
  by (simp add: ascii_lower_def ascii_lower_char_def)

lemma ascii_lower_Nil: "ascii_lower [] = []"
  by (simp add: ascii_lower_def)

lemma filter_item_entry:
  "filter_item re lower options item = Inr (Some e) \<Longrightarrow> e = make_entry lower item"
  by (auto simp: filter_item_def split: if_splits sum.splits bool.splits)

lemma filterTree_entries:
  assumes "filterTree re lower items options = Inr out" "e \<in> set out"
  shows "\<exists>item \<in> set items. e = make_entry lower item"
proof -
  have "out = List.map_filter (kept re lower options) items"
    using filterTree_loop_Inr [of re lower options items "[]" out] assms(1)
    by (simp add: filterTree_def)
  with assms(2) obtain item where "item \<in> set items" "kept re lower options item = Some e"
    by (auto simp: List.map_filter_def)
  then show ?thesis
    using filter_item_entry [of re lower options item e]
    by (auto simp: kept_def split: sum.splits)
qed

lemma getExtension_final_segment:
  "getExtension lower p =
     (if CHR ''.'' \<in> set (final_segment p) \<and> before_last_dot (final_segment p) \<noteq> [] \<and>
         final_segment p \<noteq> ''..''
      then lower (CHR ''.'' # after_last_dot (final_segment p))
      else lower [])"
  by (simp add: getExtension_def extname_final_segment Let_def)

lemma make_entry_fields:
  "entry_path (make_entry lower item) = item_path item"
  "entry_type (make_entry lower item) = (if item_type item = Blob then File else Directory)"
  "extension (make_entry lower item) =
     (if item_type item = Blob \<and> getExtension lower (item_path item) \<noteq> []
      then Some (getExtension lower (item_path item)) else None)"
  by (simp_all add: make_entry_def Let_def)

text \<open>
  C8, amended. The lower-casing of the runtime is the parameter \<open>lower\<close>; of
  \<open>toLowerCase\<close> the statement uses that it maps the empty string to itself, keeps a
  leading dot in place and changes nothing in a string that it has returned. For every
  entry of the output of filterTree the extension is set exactly when the entry is a
  file and the final segment of its path has a dot that is not its first character, the
  segment \<open>..\<close> apart (this is \<open>path.extname\<close>: a leading dot starts a hidden file's name,
  not an extension). When set, the extension is the text from that last dot to the end,
  lower-cased by the runtime: it starts with the dot and may be the dot alone.
  Directories never have an extension. For a path that does not end in a slash the
  final segment is the last element of \<open>path.split("/")\<close>.
\<close>

theorem C8_extension_amended:
  assumes "filterTree re lower items options = Inr out" and "e \<in> set out"
      and lower_Nil: "lower [] = []"
      and lower_dot: "\<And>s. lower (CHR ''.'' # s) = CHR ''.'' # lower s"
      and lower_idem: "\<And>s. lower (lower s) = lower s"
  shows "extension e =
           (if entry_type e = File \<and>
               CHR ''.'' \<in> set (final_segment (entry_path e)) \<and>
               before_last_dot (final_segment (entry_path e)) \<noteq> [] \<and>
               final_segment (entry_path e) \<noteq> ''..''
            then Some (CHR ''.'' # lower (after_last_dot (final_segment (entry_path e))))
            else None) \<and>
         (\<forall>x. extension e = Some x \<longrightarrow> hd x = CHR ''.'' \<and> x \<noteq> [] \<and> lower x = x) \<and>
         (entry_type e = Directory \<longrightarrow> extension e = None) \<and>
         (entry_path e = [] \<or> last (entry_path e) \<noteq> CHR ''/'' \<longrightarrow>
            final_segment (entry_path e) = last (js_split CHR ''/'' (entry_path e)))"
proof -
  obtain item where e: "e = make_entry lower item"
    using filterTree_entries [OF assms(1,2)] by blast
  let ?seg = "final_segment (entry_path e)"
  have main: "extension e =
           (if entry_type e = File \<and> CHR ''.'' \<in> set ?seg \<and> before_last_dot ?seg \<noteq> [] \<and>
               ?seg \<noteq> ''..''
            then Some (CHR ''.'' # lower (after_last_dot ?seg))
            else None)"
    by (simp add: e make_entry_fields getExtension_final_segment lower_Nil lower_dot)
  have fixed: "lower (CHR ''.'' # lower s) = CHR ''.'' # lower s" for s
    by (simp add: lower_dot lower_idem)
  show ?thesis
  proof (intro conjI allI impI)
    show "extension e =
           (if entry_type e = File \<and> CHR ''.'' \<in> set ?seg \<and> before_last_dot ?seg \<noteq> [] \<and>
               ?seg \<noteq> ''..''
            then Some (CHR ''.'' # lower (after_last_dot ?seg))
            else None)"
      by (rule main)
    show "extension e = None" if "entry_type e = Directory"
      using that by (simp add: main)
    show "final_segment (entry_path e) = last (js_split CHR ''/'' (entry_path e))"
      if "entry_path e = [] \<or> last (entry_path e) \<noteq> CHR ''/''"
      using that by (rule final_segment_split)
    fix x
    assume x: "extension e = Some x"
    then have "x = CHR ''.'' # lower (after_last_dot ?seg)"
      by (simp add: main split: if_splits)
    then show "hd x = CHR ''.''" "x \<noteq> []" "lower x = x"
      by (simp_all add: fixed)
  qed
qed

lemma filter_item_no_filter:
  "filter_item re lower no_filter item = Inr (Some (make_entry lower item))"
  by (simp add: filter_item_def type_skips_def include_stage_def exclude_stage_def
      extension_skips_def size_skips_def no_filter_def)

lemma filterTree_loop_no_filter:
  "filterTree_loop re lower no_filter items acc = Inr (acc @ map (make_entry lower) items)"
  by (induction items arbitrary: acc) (simp_all add: filter_item_no_filter)

lemma filterTree_no_filter:
  "filterTree re lower items no_filter = Inr (map (make_entry lower) items)"
  by (simp add: filterTree_def filterTree_loop_no_filter)

lemma final_segment_examples:
  "final_segment ''.gitignore'' = ''.gitignore''"
  "final_segment ''notes.'' = ''notes.''"
  "final_segment ''src/Index.TS'' = ''Index.TS''"
  by (simp_all add: final_segment_def)

text \<open>
  C8 as stated fails on the code: the file \<open>.gitignore\<close> has the text \<open>gitignore\<close> after the
  last dot of its final segment and no extension, and the file \<open>notes.\<close> has nothing after
  its last dot and the extension \<open>.\<close>.
\<close>

theorem C8_counterexample:
  "filterTree no_regexp ascii_lower [gitignore_item, trailing_dot_item] no_filter =
     Inr [make_entry ascii_lower gitignore_item, make_entry ascii_lower trailing_dot_item] \<and>
   entry_type (make_entry ascii_lower gitignore_item) = File \<and>
   after_last_dot (final_segment (entry_path (make_entry ascii_lower gitignore_item))) =
     ''gitignore'' \<and>
   extension (make_entry ascii_lower gitignore_item) = None \<and>
   \<not> extension_as_specified (make_entry ascii_lower gitignore_item) \<and>
   after_last_dot (final_segment (entry_path (make_entry ascii_lower trailing_dot_item))) = [] \<and>
   extension (make_entry ascii_lower trailing_dot_item) = Some ''.'' \<and>
   \<not> extension_as_specified (make_entry ascii_lower trailing_dot_item)"
proof -
  have g: "getExtension ascii_lower ''.gitignore'' = []"
    by (simp add: getExtension_final_segment final_segment_examples before_last_dot_def
        ascii_lower_Nil)
  have t: "getExtension ascii_lower ''notes.'' = ''.''"
    by (simp add: getExtension_final_segment final_segment_examples before_last_dot_def
        after_last_dot_def ascii_lower_dot ascii_lower_Nil)
  have a: "after_last_dot ''.gitignore'' = ''gitignore''" "after_last_dot ''notes.'' = []"
    by (simp_all add: after_last_dot_def)
  have fg: "entry_path (make_entry ascii_lower gitignore_item) = ''.gitignore''"
    "entry_type (make_entry ascii_lower gitignore_item) = File"
    "extension (make_entry ascii_lower gitignore_item) = None"
    by (simp_all add: make_entry_fields gitignore_item_def blob_item_def g)
  have ft: "entry_path (make_entry ascii_lower trailing_dot_item) = ''notes.''"
    "entry_type (make_entry ascii_lower trailing_dot_item) = File"
    "extension (make_entry ascii_lower trailing_dot_item) = Some ''.''"
    by (simp_all add: make_entry_fields trailing_dot_item_def blob_item_def t)
  show ?thesis
    by (simp add: filterTree_no_filter extension_as_specified_def fg ft final_segment_examples a)
qed

theorem C8_witness:
  "filterTree no_regexp ascii_lower
     [blob_item ''src/Index.TS'' ''s1'' 5, dir_item ''src'' ''d1''] no_filter =
     Inr [make_entry ascii_lower (blob_item ''src/Index.TS'' ''s1'' 5),
          make_entry ascii_lower (dir_item ''src'' ''d1'')] \<and>
   ascii_lower [] = [] \<and>
   extension (make_entry ascii_lower (blob_item ''src/Index.TS'' ''s1'' 5)) = Some ''.ts'' \<and>
   extension (make_entry ascii_lower (dir_item ''src'' ''d1'')) = None"
proof -
  let ?f = "make_entry ascii_lower (blob_item ''src/Index.TS'' ''s1'' 5)"
  let ?d = "make_entry ascii_lower (dir_item ''src'' ''d1'')"
  have run: "filterTree no_regexp ascii_lower
               [blob_item ''src/Index.TS'' ''s1'' 5, dir_item ''src'' ''d1''] no_filter =
             Inr [?f, ?d]"
    by (simp add: filterTree_no_filter)
  have mf: "?f \<in> set [?f, ?d]" and md: "?d \<in> set [?f, ?d]"
    by simp_all
  have pf: "entry_path ?f = ''src/Index.TS''" "entry_type ?f = File"
    by (simp_all add: make_entry_fields blob_item_def)
  have pd: "entry_type ?d = Directory"
    by (simp add: make_entry_fields dir_item_def)
  have seg: "CHR ''.'' \<in> set ''Index.TS''" "before_last_dot ''Index.TS'' = ''Index''"
    "after_last_dot ''Index.TS'' = ''TS''"
    by (simp_all add: before_last_dot_def after_last_dot_def)
  have low: "ascii_lower ''TS'' = ''ts''"
    by code_simp
  have "extension ?f = Some ''.ts''"
    using C8_extension_amended [OF run mf ascii_lower_Nil ascii_lower_dot ascii_lower_idem]
    by (simp add: pf final_segment_examples seg low)
  moreover have "extension ?d = None"
    using C8_extension_amended [OF run md ascii_lower_Nil ascii_lower_dot ascii_lower_idem] pd
    by simp
  ultimately show ?thesis
    using run by (simp add: ascii_lower_Nil)
qed

end
